theory Spec2Isabelle
  imports Complex_Main "HOL-Library.Log_Nat"
begin

section \<open>Python values and errors\<close>

text \<open>
  The notebooks are Python. An exception is a value of \<open>py_error\<close>, and a function that
  can raise returns \<open>py_error + 'a\<close> with \<open>Inl\<close> for the exception.

  The light-curve folding and the index lookup compute on float64 arrays; they are
  modelled with float64 arithmetic, every operation rounded (next section). The pixel
  values of the animation are only compared, never computed with, and are real numbers;
  so are the floats among the JSON values of the table.
\<close>

datatype py_error = ValueError | IndexError | KeyError | AttributeError | TypeError

section \<open>float64 arithmetic\<close>

text \<open>
  A float64 value is a finite number, an infinity or NaN. A finite value is carried as
  the real number it denotes; the representable ones are those that rounding leaves
  unchanged (\<open>is_f64\<close>). The two zeros are not told apart.

  Rounding is to nearest, ties to even, with 53 significant bits: \<open>expo x\<close> is the binary
  exponent of \<open>x\<close> (\<open>2 ^ expo x \<le> |x| < 2 ^ (expo x + 1)\<close>), the spacing of the doubles
  around \<open>x\<close> is \<open>2 ^ (expo x - 52)\<close> and never less than \<open>2 ^ -1074\<close> (subnormals), and a
  result of magnitude \<open>2 ^ 1024\<close> or more overflows to an infinity.
\<close>

datatype f64 = Fin real | PInf | NInf | NaN

definition expo :: "real \<Rightarrow> int" where
  "expo x = (if 1 \<le> \<bar>x\<bar> then bitlen \<lfloor>\<bar>x\<bar>\<rfloor> - 1 else - bitlen (\<lceil>1 / \<bar>x\<bar>\<rceil> - 1))"

definition round_even :: "real \<Rightarrow> int" where
  "round_even y =
     (if y - of_int \<lfloor>y\<rfloor> < 1 / 2 then \<lfloor>y\<rfloor>
      else if 1 / 2 < y - of_int \<lfloor>y\<rfloor> then \<lfloor>y\<rfloor> + 1
      else if even \<lfloor>y\<rfloor> then \<lfloor>y\<rfloor> else \<lfloor>y\<rfloor> + 1)"

definition quantum :: "real \<Rightarrow> real" where
  "quantum x = 2 powi (max (expo x) (- 1022) - 52)"

definition rnd :: "real \<Rightarrow> real" where
  "rnd x = of_int (round_even (x / quantum x)) * quantum x"

definition round64 :: "real \<Rightarrow> f64" where
  "round64 x =
     (if x = 0 then Fin 0
      else
        (let r = rnd x
         in if \<bar>r\<bar> < 2 powi 1024 then Fin r else if 0 < x then PInf else NInf))"

definition is_f64 :: "real \<Rightarrow> bool" where
  "is_f64 x \<longleftrightarrow> round64 x = Fin x"

text \<open>
  The operations of IEEE 754 that the notebooks use: the exact result, rounded; the
  usual rules for infinities and NaN. Comparisons with NaN are false.
\<close>

fun fneg :: "f64 \<Rightarrow> f64" where
  "fneg (Fin x) = Fin (- x)"
| "fneg PInf = NInf"
| "fneg NInf = PInf"
| "fneg NaN = NaN"

fun fadd :: "f64 \<Rightarrow> f64 \<Rightarrow> f64" where
  "fadd (Fin a) (Fin b) = round64 (a + b)"
| "fadd NaN y = NaN"
| "fadd x NaN = NaN"
| "fadd PInf NInf = NaN"
| "fadd NInf PInf = NaN"
| "fadd PInf y = PInf"
| "fadd NInf y = NInf"
| "fadd (Fin a) y = y"

definition fsub :: "f64 \<Rightarrow> f64 \<Rightarrow> f64" where
  "fsub x y = fadd x (fneg y)"

fun fmul :: "f64 \<Rightarrow> f64 \<Rightarrow> f64" where
  "fmul (Fin a) (Fin b) = round64 (a * b)"
| "fmul NaN y = NaN"
| "fmul x NaN = NaN"
| "fmul (Fin a) y = (if a = 0 then NaN else if 0 < a then y else fneg y)"
| "fmul x (Fin b) = (if b = 0 then NaN else if 0 < b then x else fneg x)"
| "fmul PInf y = y"
| "fmul NInf y = fneg y"

fun fabs :: "f64 \<Rightarrow> f64" where
  "fabs (Fin a) = Fin \<bar>a\<bar>"
| "fabs PInf = PInf"
| "fabs NInf = PInf"
| "fabs NaN = NaN"

fun flt :: "f64 \<Rightarrow> f64 \<Rightarrow> bool" where
  "flt (Fin a) (Fin b) = (a < b)"
| "flt NaN y = False"
| "flt x NaN = False"
| "flt x NInf = False"
| "flt PInf y = False"
| "flt NInf y = True"
| "flt (Fin a) PInf = True"

fun fle :: "f64 \<Rightarrow> f64 \<Rightarrow> bool" where
  "fle (Fin a) (Fin b) = (a \<le> b)"
| "fle NaN y = False"
| "fle x NaN = False"
| "fle NInf y = True"
| "fle x PInf = True"
| "fle PInf y = False"
| "fle (Fin a) NInf = False"

text \<open>
  C's \<open>fmod\<close>: the remainder of the division rounded towards zero. It has the sign of
  the dividend and is exact, so it is not rounded.
\<close>

definition ftrunc :: "real \<Rightarrow> int" where
  "ftrunc q = (if 0 \<le> q then \<lfloor>q\<rfloor> else \<lceil>q\<rceil>)"

fun fmod :: "f64 \<Rightarrow> f64 \<Rightarrow> f64" where
  "fmod (Fin a) (Fin b) = (if b = 0 then NaN else Fin (a - b * of_int (ftrunc (a / b))))"
| "fmod (Fin a) PInf = Fin a"
| "fmod (Fin a) NInf = Fin a"
| "fmod x y = NaN"

section \<open>Nearest-time index lookup (TESScut notebook, \<open>find_index\<close>)\<close>

text \<open>
  \<^verbatim>\<open>
  def find_index(btjd):
      return (np.abs(cutout_table['TIME'] - btjd)).argmin()
  \<close>
  \<open>cutout_table\<close> is a global of the notebook; its \<open>TIME\<close> column, a float64 array, is a
  parameter here. The subtraction and the absolute value are elementwise. \<open>argmin\<close> on
  an empty array raises \<open>ValueError\<close>. Otherwise it scans from the left with the smallest
  value seen and its index: it returns index 0 when the first element is NaN, replaces
  the pair when \<open>mp <= v\<close> is false (a strictly smaller value, or NaN), and stops at the
  first NaN.
\<close>

fun argmin_scan :: "f64 list \<Rightarrow> nat \<Rightarrow> f64 \<Rightarrow> nat \<Rightarrow> nat" where
  "argmin_scan [] i mp min_ind = min_ind"
| "argmin_scan (v # vs) i mp min_ind =
     (if \<not> fle mp v
      then (if v = NaN then i else argmin_scan vs (Suc i) v i)
      else argmin_scan vs (Suc i) mp min_ind)"

definition argmin :: "f64 list \<Rightarrow> py_error + nat" where
  "argmin vs =
     (case vs of
        [] \<Rightarrow> Inl ValueError
      | v # rest \<Rightarrow> Inr (if v = NaN then 0 else argmin_scan rest 1 v 0))"

definition find_index :: "f64 list \<Rightarrow> f64 \<Rightarrow> py_error + nat" where
  "find_index cutout_time btjd = argmin (map (\<lambda>t. fabs (fsub t btjd)) cutout_time)"

section \<open>Phase folding (transit notebook, \<open>x_fold\<close>)\<close>

text \<open>
  \<^verbatim>\<open>
  x_fold = (x - t0_guess + 0.5*period_guess) % period_guess - 0.5*period_guess
  median_x_fold = (x - median_t0 + 0.5*median_period) % median_period - 0.5*median_period
  \<close>
  \<open>x\<close> is a float64 array and every operation is a float64 operation, rounded on its
  own. \<open>%\<close> on numpy arrays is \<open>np.remainder\<close>: it takes \<open>fmod(a, b)\<close> and, when that is not
  zero and its sign differs from the sign of \<open>b\<close>, adds \<open>b\<close> to it (a rounded addition);
  a zero divisor gives NaN.
\<close>

definition np_remainder :: "f64 \<Rightarrow> f64 \<Rightarrow> f64" where
  "np_remainder a b =
     (let m = fmod a b
      in if b = Fin 0 then m
         else if m \<noteq> Fin 0 then (if flt b (Fin 0) \<noteq> flt m (Fin 0) then fadd m b else m)
         else Fin 0)"

definition fold_time :: "f64 \<Rightarrow> f64 \<Rightarrow> f64 \<Rightarrow> f64" where
  "fold_time period t0 t =
     fsub (np_remainder (fadd (fsub t t0) (fmul (Fin 0.5) period)) period)
          (fmul (Fin 0.5) period)"

definition x_fold :: "f64 list \<Rightarrow> f64 \<Rightarrow> f64 \<Rightarrow> f64 list" where
  "x_fold x t0_guess period_guess = map (fold_time period_guess t0_guess) x"

section \<open>JSON to table (TESScut notebook, \<open>json_to_table\<close>)\<close>

text \<open>
  \<^verbatim>\<open>
  def json_to_table(fields, data):
      rx = re.compile(r"varchar\((\d+)\)")
      data_table = Table()
      for col, atype in [(x['colname'], x['datatype']) for x in fields]:
          col = col.strip()
          if "varchar" in atype:
              match = rx.search(atype)
              atype = "U" + match.group(1)
          if atype == "real":
              atype = "float"
          data_table[col] = np.array([x.get(col, None) for x in data], dtype=atype)
      return data_table
  \<close>
  The values of a decoded JSON row are Python scalars. A float is a real number or NaN.
  Strings are lists of 8-bit characters, so the text is ASCII.
\<close>

datatype pyval = PyNone | PyStr string | PyFloat real | PyNaN | PyInt int | PyBool bool

type_synonym pydict = "string \<rightharpoonup> pyval"

text \<open>
  \<open>str.strip()\<close> removes the white space at both ends; the ASCII characters for which
  \<open>str.isspace\<close> holds are 9 to 13, 28 to 31 and the blank.
\<close>

definition is_space :: "char \<Rightarrow> bool" where
  "is_space c \<longleftrightarrow>
     c \<in> set [CHR 0x09, CHR 0x0A, CHR 0x0B, CHR 0x0C, CHR 0x0D,
               CHR 0x1C, CHR 0x1D, CHR 0x1E, CHR 0x1F, CHR 0x20]"

definition strip :: "string \<Rightarrow> string" where
  "strip s = rev (dropWhile is_space (rev (dropWhile is_space s)))"

text \<open>\<open>sub in s\<close>: \<open>sub\<close> occurs in \<open>s\<close> as a contiguous substring.\<close>

fun contains :: "string \<Rightarrow> string \<Rightarrow> bool" where
  "contains sub [] = (sub = [])"
| "contains sub (c # cs) = (take (length sub) (c # cs) = sub \<or> contains sub cs)"

text \<open>
  \<open>rx.search(atype)\<close> for the pattern \<open>varchar\((\d+)\)\<close>: the leftmost position where
  the text \<open>varchar(\<close>, one or more digits and \<open>)\<close> follow; the result is group 1, the
  digits. The greedy \<open>\d+\<close> takes every digit; giving some back cannot help, since the
  next character would be a digit and not \<open>)\<close>. No match is \<open>None\<close>.
\<close>

definition is_digit :: "char \<Rightarrow> bool" where
  "is_digit c \<longleftrightarrow> c \<in> set ''0123456789''"

definition rx_match_at :: "string \<Rightarrow> string option" where
  "rx_match_at s =
     (if take 8 s = ''varchar('' then
        (let digits = takeWhile is_digit (drop 8 s);
             rest = dropWhile is_digit (drop 8 s)
         in if digits \<noteq> [] \<and> take 1 rest = '')'' then Some digits else None)
      else None)"

fun rx_search :: "string \<Rightarrow> string option" where
  "rx_search [] = None"
| "rx_search (c # cs) =
     (case rx_match_at (c # cs) of Some g \<Rightarrow> Some g | None \<Rightarrow> rx_search cs)"

text \<open>
  The two \<open>if\<close> statements of the loop body, from the declared type to the dtype
  given to numpy. When \<open>varchar\<close> occurs but the pattern does not match, \<open>match\<close> is
  \<open>None\<close> and \<open>match.group(1)\<close> raises \<open>AttributeError\<close>.
\<close>

definition column_dtype :: "string \<Rightarrow> py_error + string" where
  "column_dtype atype =
     (case (if contains ''varchar'' atype
            then (case rx_search atype of
                    None \<Rightarrow> Inl AttributeError
                  | Some g \<Rightarrow> Inr (''U'' @ g))
            else Inr atype) of
        Inl e \<Rightarrow> Inl e
      | Inr atype' \<Rightarrow> Inr (if atype' = ''real'' then ''float'' else atype'))"

text \<open>
  \<open>np.array(values, dtype=atype)\<close> is numpy's. Two of its conversions are fixed here:
  \<^item> dtype \<open>U\<close>\<open>N\<close> with \<open>N > 0\<close>, strings of at most \<open>N\<close> characters: a string is cut to
    \<open>N\<close> characters, and \<open>None\<close> is converted by \<open>str\<close> to the text \<open>None\<close> and cut
    likewise;
  \<^item> dtype \<open>float\<close>: a float stays, an integer becomes a float, and \<open>None\<close> becomes NaN.
  Every other conversion (other dtypes, among them the unsized \<open>U0\<close>, other values, a
  dtype numpy does not know) is the parameter \<open>other\<close>, which may raise. The array keeps
  the dtype it was built with.
\<close>

definition digit_val :: "char \<Rightarrow> nat" where
  "digit_val c = of_char c - 48"

definition unicode_width :: "string \<Rightarrow> nat option" where
  "unicode_width dt =
     (case dt of
        [] \<Rightarrow> None
      | c # ds \<Rightarrow>
          (if c = CHR ''U'' \<and> ds \<noteq> [] \<and> list_all is_digit ds
              \<and> 0 < fold (\<lambda>d n. 10 * n + digit_val d) ds 0
           then Some (fold (\<lambda>d n. 10 * n + digit_val d) ds 0) else None))"

definition np_convert :: "(string \<Rightarrow> pyval \<Rightarrow> py_error + pyval) \<Rightarrow> string \<Rightarrow> pyval \<Rightarrow> py_error + pyval" where
  "np_convert other dt v =
     (case unicode_width dt of
        Some n \<Rightarrow>
          (case v of
             PyStr s \<Rightarrow> Inr (PyStr (take n s))
           | PyNone \<Rightarrow> Inr (PyStr (take n ''None''))
           | _ \<Rightarrow> other dt v)
      | None \<Rightarrow>
          (if dt = ''float'' then
             (case v of
                PyFloat r \<Rightarrow> Inr (PyFloat r)
              | PyNaN \<Rightarrow> Inr PyNaN
              | PyInt i \<Rightarrow> Inr (PyFloat (of_int i))
              | PyNone \<Rightarrow> Inr PyNaN
              | _ \<Rightarrow> other dt v)
           else other dt v))"

datatype ndarray = NdArray (dtype: string) (items: "pyval list")

fun convert_all :: "(string \<Rightarrow> pyval \<Rightarrow> py_error + pyval) \<Rightarrow> string \<Rightarrow> pyval list \<Rightarrow> py_error + pyval list" where
  "convert_all other dt [] = Inr []"
| "convert_all other dt (v # vs) =
     (case np_convert other dt v of
        Inl e \<Rightarrow> Inl e
      | Inr c \<Rightarrow> (case convert_all other dt vs of Inl e \<Rightarrow> Inl e | Inr cs \<Rightarrow> Inr (c # cs)))"

definition np_array :: "(string \<Rightarrow> pyval \<Rightarrow> py_error + pyval) \<Rightarrow> pyval list \<Rightarrow> string \<Rightarrow> py_error + ndarray" where
  "np_array other vals dt =
     (case convert_all other dt vals of
        Inl e \<Rightarrow> Inl e
      | Inr cs \<Rightarrow> Inr (NdArray dt cs))"

text \<open>
  The table is the ordered list of its named columns. \<open>data_table[col] = arr\<close> replaces
  the column of that name where it stands, or appends a new column.
\<close>

type_synonym table = "(string \<times> ndarray) list"

fun setitem :: "table \<Rightarrow> string \<Rightarrow> ndarray \<Rightarrow> table" where
  "setitem [] col arr = [(col, arr)]"
| "setitem ((k, a) # tbl) col arr =
     (if k = col then (k, arr) # tbl else (k, a) # setitem tbl col arr)"

text \<open>\<open>x.get(col, None)\<close>.\<close>

definition dict_get :: "pydict \<Rightarrow> string \<Rightarrow> pyval" where
  "dict_get x col = (case x col of None \<Rightarrow> PyNone | Some v \<Rightarrow> v)"

text \<open>
  The list comprehension over \<open>fields\<close> is evaluated before the loop starts: a
  descriptor without \<open>colname\<close> or \<open>datatype\<close> raises \<open>KeyError\<close> before any column is
  built.
\<close>

fun field_pairs :: "(string \<rightharpoonup> string) list \<Rightarrow> py_error + (string \<times> string) list" where
  "field_pairs [] = Inr []"
| "field_pairs (x # xs) =
     (case x ''colname'' of
        None \<Rightarrow> Inl KeyError
      | Some col \<Rightarrow>
          (case x ''datatype'' of
             None \<Rightarrow> Inl KeyError
           | Some atype \<Rightarrow>
               (case field_pairs xs of Inl e \<Rightarrow> Inl e | Inr ps \<Rightarrow> Inr ((col, atype) # ps))))"

text \<open>One pass of the loop body builds a column; the loop assigns the columns in order.\<close>

definition make_column ::
  "(string \<Rightarrow> pyval \<Rightarrow> py_error + pyval) \<Rightarrow> pydict list \<Rightarrow> string \<Rightarrow> string \<Rightarrow> py_error + ndarray" where
  "make_column other data col atype =
     (case column_dtype atype of
        Inl e \<Rightarrow> Inl e
      | Inr atype' \<Rightarrow> np_array other (map (\<lambda>x. dict_get x col) data) atype')"

fun fill_table ::
  "(string \<Rightarrow> pyval \<Rightarrow> py_error + pyval) \<Rightarrow> pydict list \<Rightarrow> (string \<times> string) list \<Rightarrow> table
     \<Rightarrow> py_error + table" where
  "fill_table other data [] data_table = Inr data_table"
| "fill_table other data ((col, atype) # ps) data_table =
     (case make_column other data (strip col) atype of
        Inl e \<Rightarrow> Inl e
      | Inr arr \<Rightarrow> fill_table other data ps (setitem data_table (strip col) arr))"

definition json_to_table ::
  "(string \<Rightarrow> pyval \<Rightarrow> py_error + pyval) \<Rightarrow> (string \<rightharpoonup> string) list \<Rightarrow> pydict list
     \<Rightarrow> py_error + table" where
  "json_to_table other fields data =
     (case field_pairs fields of
        Inl e \<Rightarrow> Inl e
      | Inr ps \<Rightarrow> fill_table other data ps [])"

text \<open>
  The example of the specification, a descriptor list that names column \<open>a\<close> twice, and
  a conversion parameter that always raises.
\<close>

definition example_fields :: "(string \<rightharpoonup> string) list" where
  "example_fields =
     [[''colname'' \<mapsto> ''a'', ''datatype'' \<mapsto> ''varchar(3)''],
      [''colname'' \<mapsto> ''b'', ''datatype'' \<mapsto> ''real'']]"

definition example_data :: "pydict list" where
  "example_data = [[''a'' \<mapsto> PyStr ''xy'', ''b'' \<mapsto> PyFloat 1.5], [''b'' \<mapsto> PyFloat 2.5]]"

definition duplicate_fields :: "(string \<rightharpoonup> string) list" where
  "duplicate_fields =
     [[''colname'' \<mapsto> ''a'', ''datatype'' \<mapsto> ''varchar(3)''],
      [''colname'' \<mapsto> ''a'', ''datatype'' \<mapsto> ''varchar(1)''],
      [''colname'' \<mapsto> ''b'', ''datatype'' \<mapsto> ''real'']]"

definition duplicate_data :: "pydict list" where
  "duplicate_data = [[''a'' \<mapsto> PyStr ''xyz'', ''b'' \<mapsto> PyFloat 1.5], [''b'' \<mapsto> PyFloat 2.5]]"

definition raising :: "string \<Rightarrow> pyval \<Rightarrow> py_error + pyval" where
  "raising dt v = Inl TypeError"

section \<open>Frame animation (TESScut notebook, \<open>make_animation\<close>)\<close>

text \<open>
  \<^verbatim>\<open>
  def make_animation(data_array, start_frame=0, end_frame=None, vmin=None, vmax=None, delay=50):
      if not vmin:
          vmin = np.min(data_array)
      if not vmax:
          vmax = np.max(data_array)
      if not end_frame:
          end_frame = len(data_array) - 1 # set to the end of the array
      num_frames = end_frame - start_frame + 1 # include the end frame
      def animate(i, fig, ax, binarytab, start=0):
          ax.set_title("Epoch #" + str(i+start))
          im = ax.imshow(binarytab[i+start], cmap=plt.cm.YlGnBu_r, vmin=vmin, vmax=vmax)
          return im,
      fig, ax = plt.subplots(figsize=(10,10))
      ax.imshow(data_array[start_frame], cmap=plt.cm.YlGnBu_r, vmin=vmin, vmax=vmax)
      ani = animation.FuncAnimation(fig, animate, fargs=(fig, ax, data_array, start_frame),
                                    frames=num_frames, interval=delay, repeat_delay=1000)
      plt.close()
      return ani
  \<close>
  A frame is a 2D array of pixel values and \<open>data_array\<close> a sequence of frames. An
  optional argument is an \<open>option\<close>: \<open>None\<close> is Python's \<open>None\<close>. \<open>not v\<close> is true for
  \<open>None\<close> and for the number zero.
\<close>

type_synonym frame = "real list list"

definition py_not :: "'a::zero option \<Rightarrow> bool" where
  "py_not v = (case v of None \<Rightarrow> True | Some x \<Rightarrow> x = 0)"

text \<open>
  Indexing the first axis of an array: a negative index counts from the end, an index
  outside the array raises \<open>IndexError\<close>.
\<close>

definition getitem :: "'a list \<Rightarrow> int \<Rightarrow> py_error + 'a" where
  "getitem xs i =
     (if 0 \<le> i \<and> i < int (length xs) then Inr (xs ! nat i)
      else if i < 0 \<and> - int (length xs) \<le> i then Inr (xs ! nat (int (length xs) + i))
      else Inl IndexError)"

text \<open>
  \<open>np.min\<close> and \<open>np.max\<close> without an axis reduce over every pixel of every frame; on an
  array without elements they raise \<open>ValueError\<close>.
\<close>

definition np_min :: "frame list \<Rightarrow> py_error + real" where
  "np_min data_array =
     (case concat (concat data_array) of [] \<Rightarrow> Inl ValueError | p # ps \<Rightarrow> Inr (fold min ps p))"

definition np_max :: "frame list \<Rightarrow> py_error + real" where
  "np_max data_array =
     (case concat (concat data_array) of [] \<Rightarrow> Inl ValueError | p # ps \<Rightarrow> Inr (fold max ps p))"

text \<open>
  One call of \<open>imshow\<close>: the frame shown and the colour-scale bounds (the colour map is
  the same constant everywhere). The animation object keeps what \<open>FuncAnimation\<close> is
  given: the arguments of \<open>animate\<close>, the number of frames and the delays, together with
  the bounds that \<open>animate\<close> closes over and the initial plot.
\<close>

record imshow_call =
  im_data :: frame
  im_vmin :: real
  im_vmax :: real

record func_animation =
  initial_plot :: imshow_call
  binarytab :: "frame list"
  start :: int
  ani_frames :: int
  ani_interval :: int
  repeat_delay :: int
  ani_vmin :: real
  ani_vmax :: real

definition make_animation ::
  "frame list \<Rightarrow> int \<Rightarrow> int option \<Rightarrow> real option \<Rightarrow> real option \<Rightarrow> int
     \<Rightarrow> py_error + func_animation" where
  "make_animation data_array start_frame end_frame vmin vmax delay =
     (case (if py_not vmin then np_min data_array else Inr (the vmin)) of
        Inl e \<Rightarrow> Inl e
      | Inr vmin' \<Rightarrow>
     (case (if py_not vmax then np_max data_array else Inr (the vmax)) of
        Inl e \<Rightarrow> Inl e
      | Inr vmax' \<Rightarrow>
     (let end_frame' = (if py_not end_frame then int (length data_array) - 1 else the end_frame);
          num_frames = end_frame' - start_frame + 1
      in case getitem data_array start_frame of
           Inl e \<Rightarrow> Inl e
         | Inr first \<Rightarrow>
             Inr \<lparr>initial_plot = \<lparr>im_data = first, im_vmin = vmin', im_vmax = vmax'\<rparr>,
                  binarytab = data_array, start = start_frame, ani_frames = num_frames,
                  ani_interval = delay, repeat_delay = 1000,
                  ani_vmin = vmin', ani_vmax = vmax'\<rparr>)))"

text \<open>The call with every default: \<open>make_animation(data_array)\<close>.\<close>

definition make_animation_default :: "frame list \<Rightarrow> py_error + func_animation" where
  "make_animation_default data_array = make_animation data_array 0 None None None 50"

text \<open>
  Playing the animation calls \<open>animate(i, ...)\<close> for \<open>i\<close> in \<open>range(frames)\<close>, in order;
  each call sets the title to the epoch number \<open>i + start\<close> and shows frame
  \<open>binarytab[i + start]\<close>. An index outside the array stops the run with \<open>IndexError\<close>.
\<close>

definition animate :: "func_animation \<Rightarrow> int \<Rightarrow> py_error + (int \<times> imshow_call)" where
  "animate ani i =
     (case getitem (binarytab ani) (i + start ani) of
        Inl e \<Rightarrow> Inl e
      | Inr f \<Rightarrow> Inr (i + start ani, \<lparr>im_data = f, im_vmin = ani_vmin ani, im_vmax = ani_vmax ani\<rparr>))"

fun run_frames :: "func_animation \<Rightarrow> int list \<Rightarrow> py_error + (int \<times> imshow_call) list" where
  "run_frames ani [] = Inr []"
| "run_frames ani (i # is) =
     (case animate ani i of
        Inl e \<Rightarrow> Inl e
      | Inr r \<Rightarrow> (case run_frames ani is of Inl e \<Rightarrow> Inl e | Inr rs \<Rightarrow> Inr (r # rs)))"

definition play :: "func_animation \<Rightarrow> py_error + (int \<times> imshow_call) list" where
  "play ani = run_frames ani (map int [0 ..< nat (ani_frames ani)])"

text \<open>A cube of three frames of one row and two columns, used in the examples below.\<close>

definition example_cube :: "frame list" where
  "example_cube = [[[1, 2]], [[3, 4]], [[0, 6]]]"

section \<open>Properties of float64 rounding\<close>

text \<open>
  The exponent brackets its argument; rounding is odd; a rounded value never passes a
  representable number (\<open>round64_between\<close>); halving a representable number of magnitude
  at least \<open>2 ^ -1021\<close> is exact; every \<open>m * 2 ^ e\<close> with \<open>|m| < 2 ^ 53\<close> and
  \<open>-1074 \<le> e \<le> 971\<close> is representable. The last lemmas evaluate a rounding once the
  exponent is given.
\<close>

lemma expo_bounds:
  assumes "x \<noteq> 0"
  shows "2 powi (expo x) \<le> \<bar>x\<bar>" and "\<bar>x\<bar> < 2 powi (expo x + 1)"
proof -
  have "2 powi (expo x) \<le> \<bar>x\<bar> \<and> \<bar>x\<bar> < 2 powi (expo x + 1)"
  proof (cases "1 \<le> \<bar>x\<bar>")
    case True
    let ?n = "\<lfloor>\<bar>x\<bar>\<rfloor>"
    from True have n: "0 < ?n" by linarith
    from bitlen_bounds [OF n] have b: "2 ^ nat (bitlen ?n - 1) \<le> ?n" "?n < 2 ^ nat (bitlen ?n)"
      by simp_all
    from n have bl: "1 \<le> bitlen ?n" by (simp add: bitlen_alt_def)
    have e: "expo x = bitlen ?n - 1" using True by (simp add: expo_def)
    have "(2::real) powi (bitlen ?n - 1) = 2 ^ nat (bitlen ?n - 1)"
      using bl by (simp add: power_int_def)
    also have "\<dots> = of_int (2 ^ nat (bitlen ?n - 1))" by simp
    also have "\<dots> \<le> of_int ?n" using b(1) by (simp only: of_int_le_iff)
    also have "\<dots> \<le> \<bar>x\<bar>" by linarith
    finally have lo: "2 powi (expo x) \<le> \<bar>x\<bar>" by (simp add: e)
    have "?n + 1 \<le> 2 ^ nat (bitlen ?n)" using b(2) by linarith
    then have "(of_int (?n + 1) :: real) \<le> of_int (2 ^ nat (bitlen ?n))"
      by (simp only: of_int_le_iff)
    then have A: "of_int ?n + 1 \<le> (2::real) ^ nat (bitlen ?n)" by simp
    have "\<bar>x\<bar> < of_int ?n + 1" by linarith
    with A have "\<bar>x\<bar> < 2 ^ nat (bitlen ?n)" by linarith
    also have "\<dots> = 2 powi (bitlen ?n)" using bl by (simp add: power_int_def)
    finally have hi: "\<bar>x\<bar> < 2 powi (expo x + 1)" by (simp add: e)
    from lo hi show ?thesis ..
  next
    case False
    let ?y = "1 / \<bar>x\<bar>"
    let ?c = "\<lceil>?y\<rceil>"
    from False assms have x: "0 < \<bar>x\<bar>" "\<bar>x\<bar> < 1" by simp_all
    then have y: "1 < ?y" by simp
    then have c: "0 < ?c - 1" by linarith
    let ?k = "bitlen (?c - 1)"
    from bitlen_bounds [OF c] have b: "2 ^ nat (?k - 1) \<le> ?c - 1" "?c - 1 < 2 ^ nat ?k"
      by simp_all
    from c have bl: "1 \<le> ?k" by (simp add: bitlen_alt_def)
    have e: "expo x = - ?k" using False by (simp add: expo_def)
    have "?c \<le> 2 ^ nat ?k" using b(2) by linarith
    then have "(of_int ?c :: real) \<le> of_int (2 ^ nat ?k)" by (simp only: of_int_le_iff)
    also have "\<dots> = (2::real) ^ nat ?k" by simp
    finally have "(of_int ?c :: real) \<le> 2 ^ nat ?k" .
    with le_of_int_ceiling [of ?y] have "?y \<le> 2 ^ nat ?k" by (rule order_trans)
    then have "1 \<le> 2 ^ nat ?k * \<bar>x\<bar>" using x(1) by (simp add: field_simps)
    then have "1 / 2 ^ nat ?k \<le> \<bar>x\<bar>" by (simp add: field_simps)
    moreover have "(2::real) powi (- ?k) = 1 / 2 ^ nat ?k"
      using bl by (simp add: power_int_def field_simps)
    ultimately have lo: "2 powi (expo x) \<le> \<bar>x\<bar>" by (simp add: e)
    have "(of_int (2 ^ nat (?k - 1)) :: real) \<le> of_int (?c - 1)"
      using b(1) by (simp only: of_int_le_iff)
    moreover have "(of_int (2 ^ nat (?k - 1)) :: real) = 2 ^ nat (?k - 1)" by simp
    ultimately have "(2::real) ^ nat (?k - 1) \<le> of_int (?c - 1)" by (simp only:)
    moreover have "of_int (?c - 1) < ?y" by linarith
    ultimately have "2 ^ nat (?k - 1) < ?y" by (rule le_less_trans)
    then have "2 ^ nat (?k - 1) * \<bar>x\<bar> < 1" using x(1) by (simp add: field_simps)
    then have "\<bar>x\<bar> < 1 / 2 ^ nat (?k - 1)" by (simp add: field_simps)
    moreover have "(2::real) powi (- ?k + 1) = 1 / 2 ^ nat (?k - 1)"
    proof (cases "?k = 1")
      case True
      then show ?thesis by simp
    next
      case False
      with bl have "- ?k + 1 < 0" by simp
      moreover have "nat (- (- ?k + 1)) = nat (?k - 1)" by simp
      ultimately show ?thesis by (simp add: power_int_def field_simps)
    qed
    ultimately have hi: "\<bar>x\<bar> < 2 powi (expo x + 1)" by (simp add: e)
    from lo hi show ?thesis ..
  qed
  then show "2 powi (expo x) \<le> \<bar>x\<bar>" and "\<bar>x\<bar> < 2 powi (expo x + 1)" by simp_all
qed

lemma pow2_less_imp: "(2::real) powi a < 2 powi b \<Longrightarrow> a < b"
  by (rule ccontr) (simp add: not_less power_int_increasing leD)

lemma expo_unique:
  assumes "2 powi e \<le> \<bar>x\<bar>" "\<bar>x\<bar> < 2 powi (e + 1)"
  shows "expo x = e"
proof -
  have "(0::real) < 2 powi e" by simp
  with assms(1) have "0 < \<bar>x\<bar>" by linarith
  then have x: "x \<noteq> 0" by simp
  note b = expo_bounds [OF x]
  from assms(1) b(2) have "(2::real) powi e < 2 powi (expo x + 1)" by linarith
  then have 1: "e < expo x + 1" by (rule pow2_less_imp)
  from b(1) assms(2) have "(2::real) powi (expo x) < 2 powi (e + 1)" by linarith
  then have 2: "expo x < e + 1" by (rule pow2_less_imp)
  from 1 2 show ?thesis by simp
qed

lemma round_even_of_int [simp]: "round_even (of_int k) = k"
  by (simp add: round_even_def)

lemma round_even_le: "y \<le> of_int k \<Longrightarrow> round_even y \<le> k"
proof -
  assume a: "y \<le> of_int k"
  have f: "\<lfloor>y\<rfloor> \<le> k" using a by (simp add: floor_le_iff)
  show ?thesis
  proof (cases "y - of_int \<lfloor>y\<rfloor> < 1 / 2")
    case True
    with f show ?thesis by (simp add: round_even_def)
  next
    case False
    then have "of_int \<lfloor>y\<rfloor> < y" by linarith
    with a have "of_int \<lfloor>y\<rfloor> < (of_int k :: real)" by linarith
    then have "\<lfloor>y\<rfloor> < k" by (simp only: of_int_less_iff)
    then show ?thesis by (simp add: round_even_def)
  qed
qed

lemma round_even_ge: "of_int k \<le> y \<Longrightarrow> k \<le> round_even y"
proof -
  assume "of_int k \<le> y"
  then have "k \<le> \<lfloor>y\<rfloor>" by (simp add: le_floor_iff)
  then show ?thesis by (simp add: round_even_def)
qed

lemma round_even_uminus: "round_even (- y) = - round_even y"
proof (cases "y = of_int \<lfloor>y\<rfloor>")
  case True
  then obtain k where "y = of_int k" ..
  then have "- y = of_int (- k)" by simp
  then show ?thesis using \<open>y = of_int k\<close> by (simp only: round_even_of_int)
next
  case False
  then have ni: "y \<notin> \<int>" by (auto elim!: Ints_cases)
  have fl: "\<lfloor>- y\<rfloor> = - \<lfloor>y\<rfloor> - 1"
    using False by (simp add: floor_minus ceiling_altdef)
  have fr: "- y - of_int \<lfloor>- y\<rfloor> = 1 - (y - of_int \<lfloor>y\<rfloor>)" by (simp add: fl)
  show ?thesis
    unfolding round_even_def fr unfolding fl
    by (auto simp: algebra_simps)
qed

lemma expo_uminus [simp]: "expo (- x) = expo x"
  by (simp add: expo_def)

lemma quantum_uminus [simp]: "quantum (- x) = quantum x"
  by (simp add: quantum_def)

lemma quantum_pos [simp]: "0 < quantum x"
  by (simp add: quantum_def)

lemma quantum_nonzero [simp]: "quantum x \<noteq> 0"
  using quantum_pos [of x] by linarith

lemma round64_uminus: "round64 (- x) = fneg (round64 x)"
  by (simp add: round64_def rnd_def Let_def round_even_uminus)

lemma is_f64_uminus: "is_f64 x \<Longrightarrow> is_f64 (- x)"
  by (simp add: is_f64_def round64_uminus)

lemma is_f64_0 [simp]: "is_f64 0"
  by (simp add: is_f64_def round64_def)

lemma is_f64_multiple:
  assumes "is_f64 b"
  shows "b = of_int (round_even (b / quantum b)) * quantum b" and "\<bar>b\<bar> < 2 powi 1024"
proof -
  have "b = of_int (round_even (b / quantum b)) * quantum b \<and> \<bar>b\<bar> < 2 powi 1024"
  proof (cases "b = 0")
    case True
    then show ?thesis by (simp add: round_even_def)
  next
    case False
    with assms show ?thesis
      by (auto simp: is_f64_def round64_def rnd_def Let_def split: if_splits)
  qed
  then show "b = of_int (round_even (b / quantum b)) * quantum b" and "\<bar>b\<bar> < 2 powi 1024"
    by simp_all
qed

lemma is_f64_grid:
  assumes b: "is_f64 b" and x: "x \<noteq> 0"
  shows "(\<exists>k. b = of_int k * quantum x) \<or> (\<bar>b\<bar> < 2 powi (expo x) \<and> - 1022 < expo x)"
proof (cases "b = 0")
  case True
  then have "b = of_int 0 * quantum x" by simp
  then show ?thesis by blast
next
  case False
  let ?eb = "max (expo b) (- 1022)" and ?ex = "max (expo x) (- 1022)"
  from is_f64_multiple(1) [OF b] obtain kb where kb: "b = of_int kb * quantum b" ..
  show ?thesis
  proof (cases "?ex \<le> ?eb")
    case True
    define d where "d = nat (?eb - ?ex)"
    have eq: "?eb - 52 = (?ex - 52) + int d" using True by (simp add: d_def)
    have "quantum b = 2 powi (?ex - 52 + int d)" by (simp only: quantum_def eq)
    also have "\<dots> = 2 powi (?ex - 52) * 2 ^ d" by (simp add: power_int_add)
    finally have "quantum b = of_int (2 ^ d) * quantum x" by (simp add: quantum_def)
    with kb have "b = of_int (kb * 2 ^ d) * quantum x" by simp
    then show ?thesis by blast
  next
    case False
    then have lt: "expo b < expo x" "- 1022 < expo x" by simp_all
    from expo_bounds(2) [OF \<open>b \<noteq> 0\<close>] have "\<bar>b\<bar> < 2 powi (expo b + 1)" .
    also have "\<dots> \<le> 2 powi (expo x)" using lt(1) by (simp add: power_int_increasing)
    finally show ?thesis using lt(2) by blast
  qed
qed

lemma round64_rnd: "x \<noteq> 0 \<Longrightarrow> \<bar>rnd x\<bar> < 2 powi 1024 \<Longrightarrow> round64 x = Fin (rnd x)"
  by (simp add: round64_def rnd_def Let_def)

lemma rnd_upper_pos:
  assumes "0 < x" "x \<le> b" "is_f64 b"
  shows "rnd x \<le> b"
proof -
  from assms(1) have x: "x \<noteq> 0" by simp
  from is_f64_grid [OF assms(3) x] show ?thesis
  proof
    assume "\<exists>k. b = of_int k * quantum x"
    then obtain k where k: "b = of_int k * quantum x" ..
    with assms(2) have "x / quantum x \<le> of_int k" by (simp add: pos_divide_le_eq)
    then have "round_even (x / quantum x) \<le> k" by (rule round_even_le)
    then have "(of_int (round_even (x / quantum x)) :: real) \<le> of_int k" by simp
    then show ?thesis unfolding rnd_def k by (simp add: mult_right_mono)
  next
    assume "\<bar>b\<bar> < 2 powi (expo x) \<and> - 1022 < expo x"
    with expo_bounds(1) [OF x] assms(1,2) show ?thesis by simp
  qed
qed

lemma rnd_nonneg: "0 \<le> x \<Longrightarrow> 0 \<le> rnd x"
proof -
  assume "0 \<le> x"
  then have "0 \<le> x / quantum x" by (rule divide_nonneg_pos) (rule quantum_pos)
  then have "of_int 0 \<le> x / quantum x" by simp
  then have "0 \<le> round_even (x / quantum x)" by (rule round_even_ge)
  then have "(0::real) \<le> of_int (round_even (x / quantum x))" by simp
  then show ?thesis unfolding rnd_def
    by (rule mult_nonneg_nonneg) (rule less_imp_le, rule quantum_pos)
qed

lemma rnd_lower_pos:
  assumes "0 < x" "a \<le> x" "is_f64 a"
  shows "a \<le> rnd x"
proof (cases "a \<le> 0")
  case True
  with rnd_nonneg [of x] assms(1) show ?thesis by simp
next
  case False
  from assms(1) have x: "x \<noteq> 0" by simp
  from is_f64_grid [OF assms(3) x] show ?thesis
  proof
    assume "\<exists>k. a = of_int k * quantum x"
    then obtain k where k: "a = of_int k * quantum x" ..
    with assms(2) have "of_int k \<le> x / quantum x" by (simp add: pos_le_divide_eq)
    then have "k \<le> round_even (x / quantum x)" by (rule round_even_ge)
    then have "(of_int k :: real) \<le> of_int (round_even (x / quantum x))" by simp
    then show ?thesis unfolding rnd_def k by (simp add: mult_right_mono)
  next
    assume h: "\<bar>a\<bar> < 2 powi (expo x) \<and> - 1022 < expo x"
    then have q: "quantum x = 2 powi (expo x - 52)" by (simp add: quantum_def)
    have "(2::real) powi (expo x) = 2 powi (52 + (expo x - 52))" by simp
    also have "\<dots> = 2 ^ 52 * 2 powi (expo x - 52)"
      by (subst power_int_add) simp_all
    finally have p: "(2::real) powi (expo x) = of_int (2 ^ 52) * quantum x" by (simp add: q)
    with expo_bounds(1) [OF x] assms(1) have "of_int (2 ^ 52) * quantum x \<le> x" by simp
    then have "of_int (2 ^ 52) \<le> x / quantum x" by (simp add: pos_le_divide_eq)
    then have "2 ^ 52 \<le> round_even (x / quantum x)" by (rule round_even_ge)
    then have "(of_int (2 ^ 52) :: real) \<le> of_int (round_even (x / quantum x))"
      by (simp only: of_int_le_iff)
    then have "2 powi (expo x) \<le> rnd x" unfolding rnd_def p by (simp add: mult_right_mono)
    with h show ?thesis by linarith
  qed
qed

lemma round64_between:
  assumes "a \<le> x" "x \<le> b" "is_f64 a" "is_f64 b"
  shows "\<exists>r. round64 x = Fin r \<and> a \<le> r \<and> r \<le> b"
proof -
  have pos: "\<exists>r. round64 x = Fin r \<and> a \<le> r \<and> r \<le> b"
    if "0 < x" "a \<le> x" "x \<le> b" "is_f64 a" "is_f64 b" for x a b
  proof -
    from that have u: "rnd x \<le> b" and l: "a \<le> rnd x" and n: "0 \<le> rnd x"
      by (simp_all add: rnd_upper_pos rnd_lower_pos rnd_nonneg)
    from is_f64_multiple(2) [OF that(5)] u n have "\<bar>rnd x\<bar> < 2 powi 1024" by linarith
    with that(1) have "round64 x = Fin (rnd x)" by (simp add: round64_def rnd_def Let_def)
    with u l show ?thesis by blast
  qed
  consider "x = 0" | "0 < x" | "x < 0" by linarith
  then show ?thesis
  proof cases
    case 1
    with assms show ?thesis by (simp add: round64_def)
  next
    case 2
    from pos [OF 2 assms] show ?thesis .
  next
    case 3
    then have "0 < - x" by simp
    from pos [OF this, of "- b" "- a"] assms
    obtain r where "round64 (- x) = Fin r" "- b \<le> r" "r \<le> - a"
      by (auto simp: is_f64_uminus)
    then have "round64 x = Fin (- r) \<and> a \<le> - r \<and> - r \<le> b"
      using round64_uminus [of "- x"] by simp
    then show ?thesis by blast
  qed
qed

lemma is_f64_half:
  assumes p: "is_f64 P" and n: "2 powi (- 1021) \<le> P"
  shows "is_f64 (P / 2)"
proof -
  have "(0::real) < 2 powi (- 1021)" by simp
  with n have P0: "0 < P" by linarith
  then have Pn: "P \<noteq> 0" by simp
  note b = expo_bounds [OF Pn]
  from n b(2) P0 have "(2::real) powi (- 1021) < 2 powi (expo P + 1)" by simp
  then have e: "- 1021 \<le> expo P" using pow2_less_imp by fastforce
  have h1: "(2::real) powi (expo P - 1) \<le> \<bar>P / 2\<bar>"
    using b(1) P0 by (simp add: power_int_diff)
  have "(2::real) powi (expo P + 1) = 2 powi (expo P) * 2" by (simp add: power_int_add)
  then have h2: "\<bar>P / 2\<bar> < 2 powi (expo P - 1 + 1)"
    using b(2) P0 by simp
  from expo_unique [OF h1 h2] have eh: "expo (P / 2) = expo P - 1" .
  from e have m: "max (expo P) (- 1022) = expo P" "max (expo P - 1) (- 1022) = expo P - 1"
    by simp_all
  have "quantum (P / 2) = 2 powi (expo P - 52 - 1)"
    by (simp only: quantum_def eh m) (simp add: algebra_simps)
  also have "\<dots> = 2 powi (expo P - 52) / 2" by (subst power_int_diff) simp_all
  finally have q: "quantum (P / 2) = quantum P / 2" by (simp only: quantum_def m)
  have d1: "P / 2 / quantum (P / 2) = P / quantum P" by (simp add: q)
  from is_f64_multiple(1) [OF p] obtain k where k: "P = of_int k * quantum P" ..
  then have "P / quantum P = of_int k * quantum P / quantum P"
    by (rule arg_cong [where f = "\<lambda>z. z / quantum P"])
  then have d2: "P / quantum P = of_int k" by simp
  from d1 d2 have "round_even (P / 2 / quantum (P / 2)) = k" by simp
  then have "rnd (P / 2) = of_int k * (quantum P / 2)" by (simp only: rnd_def q)
  also have "\<dots> = P / 2" using k by simp
  finally have r: "rnd (P / 2) = P / 2" .
  from P0 have ab: "\<bar>P / 2\<bar> = P / 2" "\<bar>P\<bar> = P" by simp_all
  from is_f64_multiple(2) [OF p] P0 have "\<bar>P / 2\<bar> < 2 powi 1024"
    unfolding ab by linarith
  then have "\<bar>rnd (P / 2)\<bar> < 2 powi 1024" by (simp only: r)
  with Pn have "round64 (P / 2) = Fin (rnd (P / 2))" by (intro round64_rnd) simp_all
  then show ?thesis by (simp only: is_f64_def r)
qed

lemma is_f64_dyadic:
  assumes m: "\<bar>m\<bar> < 2 ^ 53" and e: "- 1074 \<le> e" "e \<le> 971"
  shows "is_f64 (of_int m * 2 powi e)"
proof (cases "m = 0")
  case True
  then show ?thesis by simp
next
  case False
  define x :: real where "x = of_int m * 2 powi e"
  define q where "q = quantum x"
  from False have x: "x \<noteq> 0" by (simp add: x_def)
  have ax: "\<bar>x\<bar> = of_int \<bar>m\<bar> * 2 powi e" by (simp add: x_def abs_mult)
  from m have "(of_int \<bar>m\<bar> :: real) < of_int (2 ^ 53)" by (simp only: of_int_less_iff)
  then have mr: "(of_int \<bar>m\<bar> :: real) < 2 ^ 53" by simp
  have "\<bar>x\<bar> < 2 ^ 53 * 2 powi e"
    unfolding ax using mr by (simp add: mult_strict_right_mono)
  also have "\<dots> = 2 powi (53 + e)" by (subst power_int_add) simp_all
  finally have ub: "\<bar>x\<bar> < 2 powi (53 + e)" .
  with expo_bounds(1) [OF x] have "(2::real) powi (expo x) < 2 powi (53 + e)" by linarith
  then have "expo x < 53 + e" by (rule pow2_less_imp)
  with e(1) have qe: "max (expo x) (- 1022) - 52 \<le> e" by simp
  define d where "d = nat (e - (max (expo x) (- 1022) - 52))"
  have "e = (max (expo x) (- 1022) - 52) + int d" using qe by (simp add: d_def)
  then have "(2::real) powi e = 2 powi ((max (expo x) (- 1022) - 52) + int d)" by simp
  also have "\<dots> = q * 2 ^ d" unfolding q_def quantum_def by (subst power_int_add) simp_all
  finally have pe: "(2::real) powi e = q * 2 ^ d" .
  have q0: "q \<noteq> 0" by (simp add: q_def)
  have xe: "x = of_int (m * 2 ^ d) * q" by (simp add: x_def pe)
  then have "x / q = of_int (m * 2 ^ d)" using q0 by simp
  then have "round_even (x / q) = m * 2 ^ d" by (simp only: round_even_of_int)
  then have "rnd x = of_int (m * 2 ^ d) * q" by (simp only: rnd_def q_def)
  then have r: "rnd x = x" by (simp only: xe [symmetric])
  have "(2::real) powi (53 + e) \<le> 2 powi 1024" using e(2) by (intro power_int_increasing) simp_all
  with ub have "\<bar>x\<bar> < 2 powi 1024" by linarith
  then have "\<bar>rnd x\<bar> < 2 powi 1024" by (simp only: r)
  with x have "round64 x = Fin (rnd x)" by (rule round64_rnd)
  then have "is_f64 x" by (simp only: is_f64_def r)
  then show ?thesis by (simp only: x_def)
qed

lemma round64_normal:
  assumes lo: "2 powi e \<le> \<bar>x\<bar>" and hi: "\<bar>x\<bar> < 2 powi (e + 1)"
    and e: "- 1022 \<le> e" "e \<le> 1022"
  shows "round64 x = Fin (of_int (round_even (x / 2 powi (e - 52))) * 2 powi (e - 52))"
proof -
  have "(0::real) < 2 powi e" by simp
  with lo have "0 < \<bar>x\<bar>" by linarith
  then have x: "x \<noteq> 0" by simp
  from expo_unique [OF lo hi] e(1) have q: "quantum x = 2 powi (e - 52)"
    by (simp add: quantum_def)
  have r: "rnd x = of_int (round_even (x / 2 powi (e - 52))) * 2 powi (e - 52)"
    by (simp only: rnd_def q)
  have p: "(2::real) powi (e + 1) = of_int (2 ^ 53) * 2 powi (e - 52)"
  proof -
    have "e + 1 = 53 + (e - 52)" by simp
    then have "(2::real) powi (e + 1) = 2 powi (53 + (e - 52))" by (simp only:)
    also have "\<dots> = 2 ^ 53 * 2 powi (e - 52)" by (subst power_int_add) simp_all
    finally show ?thesis by simp
  qed
  have qp: "(0::real) < 2 powi (e - 52)" by simp
  from hi have "x \<le> of_int (2 ^ 53) * 2 powi (e - 52)" "of_int (- (2 ^ 53)) * 2 powi (e - 52) \<le> x"
    unfolding p by (simp_all add: abs_less_iff)
  then have d: "x / 2 powi (e - 52) \<le> of_int (2 ^ 53)" "of_int (- (2 ^ 53)) \<le> x / 2 powi (e - 52)"
    using qp by (simp_all only: pos_divide_le_eq pos_le_divide_eq)
  have "round_even (x / 2 powi (e - 52)) \<le> 2 ^ 53" using d(1) by (rule round_even_le)
  moreover have "- (2 ^ 53) \<le> round_even (x / 2 powi (e - 52))" using d(2) by (rule round_even_ge)
  ultimately have "\<bar>round_even (x / 2 powi (e - 52))\<bar> \<le> 2 ^ 53" by simp
  then have "(of_int \<bar>round_even (x / 2 powi (e - 52))\<bar> :: real) \<le> of_int (2 ^ 53)"
    by (simp only: of_int_le_iff)
  then have "\<bar>rnd x\<bar> \<le> of_int (2 ^ 53) * 2 powi (e - 52)"
    unfolding r by (simp add: abs_mult mult_right_mono)
  also have "\<dots> = 2 powi (e + 1)" by (simp only: p)
  also have "\<dots> \<le> 2 powi 1023" using e(2) by (intro power_int_increasing) simp_all
  also have "\<dots> < 2 powi 1024" by (intro power_int_strict_increasing) simp_all
  finally have "\<bar>rnd x\<bar> < 2 powi 1024" .
  with x have "round64 x = Fin (rnd x)" by (rule round64_rnd)
  then show ?thesis by (simp only: r)
qed

lemma round64_exact:
  assumes "\<bar>m\<bar> < 2 ^ 53" "- 1074 \<le> e" "e \<le> 971" "x = of_int m * 2 powi e"
  shows "round64 x = Fin x"
  using is_f64_dyadic [OF assms(1-3)] by (simp only: assms(4) is_f64_def)

lemma round64_numeral [simp]:
  "(numeral n :: int) < 2 ^ 53 \<Longrightarrow> round64 (numeral n) = Fin (numeral n)"
  by (rule round64_exact [where m = "numeral n" and e = 0]) simp_all

lemma round64_neg_numeral [simp]:
  "(numeral n :: int) < 2 ^ 53 \<Longrightarrow> round64 (- numeral n) = Fin (- numeral n)"
  by (rule round64_exact [where m = "- numeral n" and e = 0]) simp_all

lemma round64_0 [simp]: "round64 0 = Fin 0"
  by (simp add: round64_def)

lemma round64_1 [simp]: "round64 1 = Fin 1" "round64 (- 1) = Fin (- 1)"
  by (rule round64_exact [where m = 1 and e = 0], simp_all)
     (rule round64_exact [where m = "- 1" and e = 0], simp_all)

lemma fsub_Fin: "fsub (Fin a) (Fin b) = round64 (a - b)"
  by (simp add: fsub_def)

lemma round64_exact':
  assumes "\<bar>m\<bar> < 2 ^ 53" "- 1074 \<le> e" "e \<le> 971" "x = of_int m * 2 powi e" "y = x"
  shows "round64 x = Fin y"
  using round64_exact [OF assms(1-4)] assms(5) by simp

section \<open>Properties of the index lookup\<close>

lemma fle_total: "a \<noteq> NaN \<Longrightarrow> b \<noteq> NaN \<Longrightarrow> (\<not> fle a b) = flt b a"
  by (cases a; cases b) auto

lemma flt_fle_trans: "flt a b \<Longrightarrow> fle b c \<Longrightarrow> flt a c"
  by (cases a; cases b; cases c) auto

lemma flt_imp_fle: "flt a b \<Longrightarrow> fle a b"
  by (cases a; cases b) auto

lemma fle_refl: "a \<noteq> NaN \<Longrightarrow> fle a a"
  by (cases a) auto

lemma fle_NaN [simp]: "fle a NaN = False" "fle NaN a = False"
  by (cases a; simp)+

lemma flt_NaN [simp]: "flt a NaN = False" "flt NaN a = False"
  by (cases a; simp)+

lemma argmin_scan_spec:
  assumes "i = length pre" "bi < length pre" "pre ! bi = best" "best \<noteq> NaN"
    and "\<forall>j < length pre. pre ! j \<noteq> NaN \<and> fle best (pre ! j)"
    and "\<forall>j < bi. flt best (pre ! j)"
  shows "argmin_scan vs i best bi < length (pre @ vs) \<and>
         (if NaN \<in> set vs
          then (pre @ vs) ! argmin_scan vs i best bi = NaN \<and>
               (\<forall>j < argmin_scan vs i best bi. (pre @ vs) ! j \<noteq> NaN)
          else (\<forall>j < length (pre @ vs).
                  fle ((pre @ vs) ! argmin_scan vs i best bi) ((pre @ vs) ! j)) \<and>
               (\<forall>j < argmin_scan vs i best bi.
                  flt ((pre @ vs) ! argmin_scan vs i best bi) ((pre @ vs) ! j)))"
  using assms
proof (induction vs arbitrary: pre i best bi)
  case Nil
  then show ?case by simp
next
  case (Cons v vs)
  let ?pre = "pre @ [v]"
  have app: "pre @ v # vs = ?pre @ vs" by simp
  show ?case
  proof (cases "v = NaN")
    case True
    then have r: "argmin_scan (v # vs) i best bi = i" by simp
    have "(pre @ v # vs) ! i = NaN" using Cons.prems(1) True by simp
    moreover have "\<forall>j < i. (pre @ v # vs) ! j \<noteq> NaN"
      using Cons.prems(1,5) by (simp add: nth_append)
    moreover have "i < length (pre @ v # vs)" using Cons.prems(1) by simp
    ultimately show ?thesis using True by (simp only: r) simp
  next
    case vn: False
    then have ns: "(NaN \<in> set (v # vs)) = (NaN \<in> set vs)" by auto
    show ?thesis
    proof (cases "fle best v")
      case False
      with vn Cons.prems(4) have lt: "flt v best" by (simp add: fle_total)
      have r: "argmin_scan (v # vs) i best bi = argmin_scan vs (Suc i) v i"
        using False vn by simp
      have a1: "Suc i = length ?pre" using Cons.prems(1) by simp
      have a2: "i < length ?pre" using Cons.prems(1) by simp
      have a3: "?pre ! i = v" using Cons.prems(1) by simp
      have a5: "\<forall>j < length ?pre. ?pre ! j \<noteq> NaN \<and> fle v (?pre ! j)"
      proof (intro allI impI)
        fix j assume "j < length ?pre"
        then consider "j < length pre" | "j = length pre" by fastforce
        then show "?pre ! j \<noteq> NaN \<and> fle v (?pre ! j)"
        proof cases
          case 1
          with Cons.prems(5) have "pre ! j \<noteq> NaN" "fle best (pre ! j)" by simp_all
          with lt 1 show ?thesis
            by (simp add: nth_append flt_imp_fle [OF flt_fle_trans])
        next
          case 2
          then show ?thesis using vn by (simp add: fle_refl)
        qed
      qed
      have a6: "\<forall>j < i. flt v (?pre ! j)"
      proof (intro allI impI)
        fix j assume "j < i"
        then have j: "j < length pre" using Cons.prems(1) by simp
        with Cons.prems(5) have "fle best (pre ! j)" by simp
        with lt j show "flt v (?pre ! j)" by (simp add: nth_append flt_fle_trans)
      qed
      from Cons.IH [OF a1 a2 a3 vn a5 a6] show ?thesis
        unfolding app r ns .
    next
      case True
      have r: "argmin_scan (v # vs) i best bi = argmin_scan vs (Suc i) best bi"
        using True by simp
      have b1: "Suc i = length ?pre" using Cons.prems(1) by simp
      have b2: "bi < length ?pre" using Cons.prems(2) by simp
      have b3: "?pre ! bi = best" using Cons.prems(2,3) by (simp add: nth_append)
      have b5: "\<forall>j < length ?pre. ?pre ! j \<noteq> NaN \<and> fle best (?pre ! j)"
      proof (intro allI impI)
        fix j assume "j < length ?pre"
        then consider "j < length pre" | "j = length pre" by fastforce
        then show "?pre ! j \<noteq> NaN \<and> fle best (?pre ! j)"
        proof cases
          case 1
          then show ?thesis using Cons.prems(5) by (simp add: nth_append)
        next
          case 2
          then show ?thesis using True vn by simp
        qed
      qed
      have b6: "\<forall>j < bi. flt best (?pre ! j)"
      proof (intro allI impI)
        fix j assume "j < bi"
        then have "j < length pre" using Cons.prems(2) by simp
        with \<open>j < bi\<close> Cons.prems(6) show "flt best (?pre ! j)" by (simp add: nth_append)
      qed
      from Cons.IH [OF b1 b2 b3 Cons.prems(4) b5 b6] show ?thesis
        unfolding app r ns .
    qed
  qed
qed

lemma argmin_nonempty:
  assumes "vs \<noteq> []"
  shows "\<exists>i. argmin vs = Inr i \<and> i < length vs \<and>
           (if NaN \<in> set vs
            then vs ! i = NaN \<and> (\<forall>j < i. vs ! j \<noteq> NaN)
            else (\<forall>j < length vs. fle (vs ! i) (vs ! j)) \<and> (\<forall>j < i. flt (vs ! i) (vs ! j)))"
proof -
  from assms obtain v rest where vs: "vs = v # rest" by (cases vs) auto
  show ?thesis
  proof (cases "v = NaN")
    case True
    then show ?thesis by (simp add: vs argmin_def)
  next
    case False
    let ?r = "argmin_scan rest 1 v 0"
    have ns: "(NaN \<in> set (v # rest)) = (NaN \<in> set rest)" using False by auto
    have am: "argmin (v # rest) = Inr ?r" using False by (simp add: argmin_def)
    have "?r < length ([v] @ rest) \<and>
         (if NaN \<in> set rest
          then ([v] @ rest) ! ?r = NaN \<and> (\<forall>j < ?r. ([v] @ rest) ! j \<noteq> NaN)
          else (\<forall>j < length ([v] @ rest). fle (([v] @ rest) ! ?r) (([v] @ rest) ! j)) \<and>
               (\<forall>j < ?r. flt (([v] @ rest) ! ?r) (([v] @ rest) ! j)))"
      using False by (intro argmin_scan_spec) (simp_all add: fle_refl)
    then have main: "?r < length (v # rest) \<and>
         (if NaN \<in> set (v # rest)
          then (v # rest) ! ?r = NaN \<and> (\<forall>j < ?r. (v # rest) ! j \<noteq> NaN)
          else (\<forall>j < length (v # rest). fle ((v # rest) ! ?r) ((v # rest) ! j)) \<and>
               (\<forall>j < ?r. flt ((v # rest) ! ?r) ((v # rest) ! j)))"
      unfolding append_Cons append_Nil ns [symmetric] .
    show ?thesis unfolding vs am
      by (rule exI [of _ ?r]) (use main in blast)
  qed
qed

text \<open>
  Claim C3, as amended. For a non-empty sequence of timestamps \<open>find_index\<close> returns an
  index of the sequence. When no computed distance \<open>|t - q|\<close> is NaN, the computed
  (rounded) distance at that index is the least of all and every entry before it has a
  strictly larger computed distance, so the first minimiser of the computed distances is
  returned. When some computed distance is NaN, the index of the first NaN is returned.
  For the sequence 0, 1, 2, 5, 10 and the query 6 the result is index 3.
\<close>

theorem find_index_first_computed_minimum:
  "(xs \<noteq> [] \<longrightarrow>
     (\<exists>i. find_index xs q = Inr i \<and> i < length xs \<and>
          (if NaN \<in> set (map (\<lambda>t. fabs (fsub t q)) xs)
           then fabs (fsub (xs ! i) q) = NaN \<and> (\<forall>j < i. fabs (fsub (xs ! j) q) \<noteq> NaN)
           else (\<forall>j < length xs. fle (fabs (fsub (xs ! i) q)) (fabs (fsub (xs ! j) q))) \<and>
                (\<forall>j < i. flt (fabs (fsub (xs ! i) q)) (fabs (fsub (xs ! j) q)))))) \<and>
   find_index [Fin 0, Fin 1, Fin 2, Fin 5, Fin 10] (Fin 6) = Inr 3"
proof -
  have conc: "find_index [Fin 0, Fin 1, Fin 2, Fin 5, Fin 10] (Fin 6) = Inr 3"
    by (simp add: find_index_def argmin_def fsub_Fin)
  have gen: "\<exists>i. find_index xs q = Inr i \<and> i < length xs \<and>
          (if NaN \<in> set (map (\<lambda>t. fabs (fsub t q)) xs)
           then fabs (fsub (xs ! i) q) = NaN \<and> (\<forall>j < i. fabs (fsub (xs ! j) q) \<noteq> NaN)
           else (\<forall>j < length xs. fle (fabs (fsub (xs ! i) q)) (fabs (fsub (xs ! j) q))) \<and>
                (\<forall>j < i. flt (fabs (fsub (xs ! i) q)) (fabs (fsub (xs ! j) q))))"
    if ne: "xs \<noteq> []"
  proof -
    let ?vs = "map (\<lambda>t. fabs (fsub t q)) xs"
    from ne have "?vs \<noteq> []" by simp
    from argmin_nonempty [OF this] obtain i where
      i: "argmin ?vs = Inr i" "i < length ?vs"
         "if NaN \<in> set ?vs
          then ?vs ! i = NaN \<and> (\<forall>j < i. ?vs ! j \<noteq> NaN)
          else (\<forall>j < length ?vs. fle (?vs ! i) (?vs ! j)) \<and> (\<forall>j < i. flt (?vs ! i) (?vs ! j))"
      by blast
    from i(2) have il: "i < length xs" by simp
    have n: "?vs ! j = fabs (fsub (xs ! j) q)" if "j < length xs" for j
      using that by simp
    have "if NaN \<in> set ?vs
          then fabs (fsub (xs ! i) q) = NaN \<and> (\<forall>j < i. fabs (fsub (xs ! j) q) \<noteq> NaN)
          else (\<forall>j < length xs. fle (fabs (fsub (xs ! i) q)) (fabs (fsub (xs ! j) q))) \<and>
               (\<forall>j < i. flt (fabs (fsub (xs ! i) q)) (fabs (fsub (xs ! j) q)))"
    proof (cases "NaN \<in> set ?vs")
      case True
      with i(3) have "?vs ! i = NaN" "\<forall>j < i. ?vs ! j \<noteq> NaN" by simp_all
      with il n True show ?thesis by auto
    next
      case False
      with i(3) have "\<forall>j < length ?vs. fle (?vs ! i) (?vs ! j)" "\<forall>j < i. flt (?vs ! i) (?vs ! j)"
        by simp_all
      with il n False show ?thesis by auto
    qed
    with i(1) il show ?thesis by (auto simp: find_index_def)
  qed
  from conc gen show ?thesis by blast
qed

theorem find_index_first_computed_minimum_witness:
  "[Fin 0, Fin 1, Fin 5, Fin 3, Fin 10] \<noteq> [] \<and>
   find_index [Fin 0, Fin 1, Fin 5, Fin 3, Fin 10] (Fin 4) = Inr 2 \<and>
   NaN \<notin> set (map (\<lambda>t. fabs (fsub t (Fin 4))) [Fin 0, Fin 1, Fin 5, Fin 3, Fin 10])"
proof -
  have v: "find_index [Fin 0, Fin 1, Fin 5, Fin 3, Fin 10] (Fin 4) = Inr 2"
    by (simp add: find_index_def argmin_def fsub_Fin)
  have n: "NaN \<notin> set (map (\<lambda>t. fabs (fsub t (Fin 4))) [Fin 0, Fin 1, Fin 5, Fin 3, Fin 10])"
    by (simp add: fsub_Fin)
  from find_index_first_computed_minimum [of "[Fin 0, Fin 1, Fin 5, Fin 3, Fin 10]" "Fin 4"] v n show ?thesis by simp
qed

text \<open>
  The claim as it stands speaks of the entry that minimises the absolute difference
  itself. With the timestamps \<open>-1\<close> and \<open>2 ^ 54\<close> and the query \<open>2 ^ 53\<close> the difference
  \<open>-1 - 2 ^ 53\<close> rounds to \<open>-(2 ^ 53)\<close>, both computed distances are \<open>2 ^ 53\<close>, and index 0
  is returned although the entry at index 1 is strictly nearer.
\<close>

theorem find_index_rounding_counterexample:
  "find_index [Fin (- 1), Fin (2 ^ 54)] (Fin (2 ^ 53)) = Inr 0 \<and>
   is_f64 (- 1) \<and> is_f64 (2 ^ 54) \<and> is_f64 (2 ^ 53) \<and>
   \<bar>2 ^ 54 - 2 ^ 53\<bar> < \<bar>- 1 - (2 ^ 53 :: real)\<bar>"
proof -
  have d0: "fsub (Fin (- 1)) (Fin (2 ^ 53)) = Fin (- (2 ^ 53))"
    unfolding fsub_Fin
    by (subst round64_normal [where e = 53]) (simp_all add: round_even_def)
  have d1: "fsub (Fin (2 ^ 54)) (Fin (2 ^ 53)) = Fin (2 ^ 53)"
    unfolding fsub_Fin
    by (rule trans [OF round64_exact [where m = 1 and e = 53]]) simp_all
  have "map (\<lambda>t. fabs (fsub t (Fin (2 ^ 53)))) [Fin (- 1), Fin (2 ^ 54)] =
        [Fin (2 ^ 53), Fin (2 ^ 53)]"
    by (simp only: list.map d0 d1 fabs.simps) simp
  then have "find_index [Fin (- 1), Fin (2 ^ 54)] (Fin (2 ^ 53)) = argmin [Fin (2 ^ 53), Fin (2 ^ 53)]"
    by (simp only: find_index_def)
  also have "\<dots> = Inr 0" by (simp add: argmin_def)
  finally have "find_index [Fin (- 1), Fin (2 ^ 54)] (Fin (2 ^ 53)) = Inr 0" .
  moreover have "is_f64 (- 1)" using is_f64_dyadic [of "- 1" 0] by simp
  moreover have "is_f64 (2 ^ 54)" using is_f64_dyadic [of 1 54] by simp
  moreover have "is_f64 (2 ^ 53)" using is_f64_dyadic [of 1 53] by simp
  moreover have "\<bar>2 ^ 54 - 2 ^ 53\<bar> < \<bar>- 1 - (2 ^ 53 :: real)\<bar>" by simp
  ultimately show ?thesis by blast
qed

text \<open>
  Claim C4. \<open>find_index\<close> fails exactly on the empty sequence: there it raises
  (\<open>ValueError\<close> from \<open>argmin\<close>), and on every non-empty sequence, NaN and infinities
  included, it returns an index of the sequence.
\<close>

theorem find_index_fails_iff_empty:
  "(xs = [] \<longrightarrow> find_index xs q = Inl ValueError) \<and>
   (xs \<noteq> [] \<longrightarrow> (\<exists>i. find_index xs q = Inr i \<and> i < length xs)) \<and>
   ((\<exists>e. find_index xs q = Inl e) \<longleftrightarrow> xs = [])"
proof -
  have e: "find_index [] q = Inl ValueError"
    by (simp add: find_index_def argmin_def)
  have n: "\<exists>i. find_index xs q = Inr i \<and> i < length xs" if "xs \<noteq> []"
  proof -
    from that have "map (\<lambda>t. fabs (fsub t q)) xs \<noteq> []" by simp
    from argmin_nonempty [OF this] show ?thesis by (auto simp: find_index_def)
  qed
  from e n show ?thesis by (cases "xs = []") auto
qed

theorem find_index_fails_iff_empty_witness:
  "find_index [] (Fin 7) = Inl ValueError \<and>
   [Fin 3, NaN, Fin 8] \<noteq> [] \<and>
   (\<exists>i. find_index [Fin 3, NaN, Fin 8] (Fin 7) = Inr i \<and> i < length [Fin 3, NaN, Fin 8])"
  using find_index_fails_iff_empty [of "[]" "Fin 7"] find_index_fails_iff_empty [of "[Fin 3, NaN, Fin 8]" "Fin 7"]
  by simp

section \<open>Properties of phase folding\<close>


lemma fmod_small: "\<bar>a\<bar> < \<bar>b\<bar> \<Longrightarrow> fmod (Fin a) (Fin b) = Fin a"
proof -
  assume s: "\<bar>a\<bar> < \<bar>b\<bar>"
  then have b: "b \<noteq> 0" by auto
  from s b have "\<bar>a / b\<bar> < 1" by simp
  then have q: "a / b < 1 \<and> - (a / b) < 1" by (simp only: abs_less_iff)
  have "ftrunc (a / b) = 0"
  proof (cases "0 \<le> a / b")
    case True
    with q have "\<lfloor>a / b\<rfloor> = 0" by (simp add: floor_eq_iff)
    with True show ?thesis by (simp add: ftrunc_def)
  next
    case False
    with q have "\<lceil>a / b\<rceil> = 0" by (simp add: ceiling_eq_iff)
    with False show ?thesis by (simp add: ftrunc_def)
  qed
  with b show ?thesis by simp
qed

lemma np_remainder_neg:
  "0 < P \<Longrightarrow> fmod (Fin a) (Fin P) = Fin r \<Longrightarrow> r < 0 \<Longrightarrow>
   np_remainder (Fin a) (Fin P) = fadd (Fin r) (Fin P)"
  by (simp add: np_remainder_def Let_def)


lemma ftrunc_bounds: "\<bar>q - of_int (ftrunc q)\<bar> < 1"
  unfolding ftrunc_def by (cases "0 \<le> q") (simp_all, linarith+)

lemma fmod_bounds:
  assumes "0 < P"
  shows "- P < a - P * of_int (ftrunc (a / P))" and "a - P * of_int (ftrunc (a / P)) < P"
proof -
  let ?q = "a / P"
  have e: "a - P * of_int (ftrunc ?q) = P * (?q - of_int (ftrunc ?q))"
    using assms by (simp add: algebra_simps)
  from ftrunc_bounds [of ?q] have "- 1 < ?q - of_int (ftrunc ?q)" "?q - of_int (ftrunc ?q) < 1"
    by linarith+
  with assms have "P * (- 1) < P * (?q - of_int (ftrunc ?q))" "P * (?q - of_int (ftrunc ?q)) < P * 1"
    by (simp_all only: mult_less_cancel_left_pos)
  then show "- P < a - P * of_int (ftrunc (a / P))" and "a - P * of_int (ftrunc (a / P)) < P"
    unfolding e by simp_all
qed

lemma np_remainder_range:
  assumes P: "is_f64 P" and pos: "0 < P"
  shows "\<exists>m. np_remainder (Fin a) (Fin P) = Fin m \<and> 0 \<le> m \<and> m \<le> P"
proof -
  let ?r = "a - P * of_int (ftrunc (a / P))"
  from pos have fm: "fmod (Fin a) (Fin P) = Fin ?r" by simp
  note b = fmod_bounds [OF pos, of a]
  consider "?r = 0" | "0 < ?r" | "?r < 0" by linarith
  then show ?thesis
  proof cases
    case 1
    with pos have "np_remainder (Fin a) (Fin P) = Fin 0"
      by (simp add: np_remainder_def Let_def)
    with pos show ?thesis by simp
  next
    case 2
    with pos have "np_remainder (Fin a) (Fin P) = Fin ?r"
      by (simp add: np_remainder_def Let_def)
    with 2 b(2) show ?thesis by simp
  next
    case 3
    with pos have n: "np_remainder (Fin a) (Fin P) = round64 (?r + P)"
      by (simp add: np_remainder_def Let_def)
    from b(1) 3 have "0 \<le> ?r + P" "?r + P \<le> P" by linarith+
    from round64_between [OF this is_f64_0 P] n show ?thesis by simp
  qed
qed

lemma half_period:
  assumes "is_f64 P" "2 powi (- 1021) \<le> P"
  shows "fmul (Fin 0.5) (Fin P) = Fin (P / 2)"
  using is_f64_half [OF assms] by (simp add: is_f64_def)

text \<open>
  Claim C1, as amended. For a float64 period \<open>P\<close> of at least \<open>2 ^ -1021\<close>, a finite
  epoch \<open>t0\<close> and a finite time \<open>t\<close> of the array for which the shifted time
  \<open>t - t0 + 0.5 P\<close> is finite in float64, the folded value is a finite number in the
  closed interval from \<open>-0.5 P\<close> to \<open>0.5 P\<close>.
\<close>

theorem x_fold_closed_range:
  assumes P: "is_f64 P" and n: "2 powi (- 1021) \<le> P"
    and i: "i < length x" "x ! i = Fin t"
    and a: "fadd (fsub (Fin t) (Fin t0)) (fmul (Fin 0.5) (Fin P)) = Fin a"
  shows "\<exists>v. x_fold x (Fin t0) (Fin P) ! i = Fin v \<and> - (0.5 * P) \<le> v \<and> v \<le> 0.5 * P"
proof -
  have "(0::real) < 2 powi (- 1021)" by simp
  with n have pos: "0 < P" by linarith
  note h = half_period [OF P n]
  from np_remainder_range [OF P pos, of a] obtain m where
    m: "np_remainder (Fin a) (Fin P) = Fin m" "0 \<le> m" "m \<le> P" by blast
  have hf: "is_f64 (P / 2)" by (rule is_f64_half [OF P n])
  then have hn: "is_f64 (- (P / 2))" by (rule is_f64_uminus)
  from m have "- (P / 2) \<le> m - P / 2" "m - P / 2 \<le> P / 2" by simp_all
  from round64_between [OF this hn hf] obtain v where
    v: "round64 (m - P / 2) = Fin v" "- (P / 2) \<le> v" "v \<le> P / 2" by blast
  from hf have hr: "round64 (P / 2) = Fin (P / 2)" by (simp only: is_f64_def)
  have "fold_time (Fin P) (Fin t0) (Fin t) = Fin v"
    using a m(1) v(1) hr by (simp add: fold_time_def fsub_def)
  with i v(2,3) show ?thesis by (simp add: x_fold_def)
qed

theorem x_fold_closed_range_witness:
  "is_f64 2 \<and> 2 powi (- 1021) \<le> (2::real) \<and>
   (2::nat) < length [Fin 0, Fin 1, Fin (5 / 2), Fin (- 7)] \<and>
   [Fin 0, Fin 1, Fin (5 / 2), Fin (- 7)] ! 2 = Fin (5 / 2) \<and>
   fadd (fsub (Fin (5 / 2)) (Fin 1)) (fmul (Fin 0.5) (Fin 2)) = Fin (5 / 2) \<and>
   (\<exists>v. x_fold [Fin 0, Fin 1, Fin (5 / 2), Fin (- 7)] (Fin 1) (Fin 2) ! 2 = Fin v \<and>
        - (0.5 * 2) \<le> v \<and> v \<le> 0.5 * 2)"
proof -
  have p: "is_f64 2" using is_f64_dyadic [of 2 0] by simp
  have "(2::real) powi (- 1021) \<le> 2 powi 1" by (intro power_int_increasing) simp_all
  then have n: "2 powi (- 1021) \<le> (2::real)" by simp
  have l: "(2::nat) < length [Fin 0, Fin 1, Fin (5 / 2), Fin (- 7)]" by simp
  have e: "[Fin 0, Fin 1, Fin (5 / 2), Fin (- 7)] ! 2 = Fin (5 / 2)" by simp
  have s1: "fsub (Fin (5 / 2)) (Fin 1) = Fin (3 / 2)"
    unfolding fsub_Fin by (rule round64_exact' [where m = 3 and e = "- 1"]) simp_all
  have h: "fmul (Fin 0.5) (Fin 2) = Fin 1" by simp
  have s2: "fadd (Fin (3 / 2)) (Fin 1) = Fin (5 / 2)"
    unfolding fadd.simps by (rule round64_exact' [where m = 5 and e = "- 1"]) simp_all
  have a: "fadd (fsub (Fin (5 / 2)) (Fin 1)) (fmul (Fin 0.5) (Fin 2)) = Fin (5 / 2)"
    by (simp only: s1 h s2)
  from x_fold_closed_range [OF p n l e a] p n l e a show ?thesis by blast
qed

text \<open>
  The claim as it stands excludes the upper end \<open>0.5 P\<close>. With \<open>P = 3\<close>, \<open>t0 = 0\<close> and
  \<open>t = -(1.5 + 2 ^ -52)\<close> the shifted time is \<open>-(2 ^ -52)\<close>, \<open>fmod\<close> keeps it, adding
  \<open>P\<close> rounds \<open>3 - 2 ^ -52\<close> to \<open>3\<close>, and the folded value is \<open>1.5 = 0.5 P\<close>.
\<close>

theorem x_fold_upper_bound_reached:
  "is_f64 3 \<and> is_f64 (- (3 / 2 + 1 / 2 ^ 52)) \<and>
   x_fold [Fin (- (3 / 2 + 1 / 2 ^ 52))] (Fin 0) (Fin 3) = [Fin (3 / 2)] \<and>
   \<not> ((3 / 2 :: real) < 0.5 * 3)"
proof -
  let ?x = "- (3 / 2 + 1 / 2 ^ 52) :: real"
  have r3: "is_f64 3" using is_f64_dyadic [of 3 0] by simp
  have rx: "is_f64 ?x" using is_f64_dyadic [of "- (3 * 2 ^ 51 + 1)" "- 52"] by simp
  have s1: "fsub (Fin ?x) (Fin 0) = Fin ?x"
    using rx by (simp add: fsub_Fin is_f64_def)
  have h: "fmul (Fin 0.5) (Fin 3) = Fin (3 / 2)"
    using is_f64_dyadic [of 3 "- 1"] by (simp add: is_f64_def)
  have s2: "fadd (Fin ?x) (Fin (3 / 2)) = Fin (- (1 / 2 ^ 52))"
    using is_f64_dyadic [of "- 1" "- 52"] by (simp add: is_f64_def)
  have fm: "fmod (Fin (- (1 / 2 ^ 52))) (Fin 3) = Fin (- (1 / 2 ^ 52))"
    by (rule fmod_small) simp
  have up: "fadd (Fin (- (1 / 2 ^ 52))) (Fin 3) = Fin 3"
    unfolding fadd.simps
    by (subst round64_normal [where e = 1]) (simp_all add: round_even_def)
  have "np_remainder (Fin (- (1 / 2 ^ 52))) (Fin 3) = fadd (Fin (- (1 / 2 ^ 52))) (Fin 3)"
    by (rule np_remainder_neg [OF _ fm]) simp_all
  then have m: "np_remainder (Fin (- (1 / 2 ^ 52))) (Fin 3) = Fin 3" by (simp only: up)
  have s3: "fsub (Fin 3) (Fin (3 / 2)) = Fin (3 / 2)"
    using is_f64_dyadic [of 3 "- 1"] by (simp add: fsub_Fin is_f64_def)
  have "fold_time (Fin 3) (Fin 0) (Fin ?x) = Fin (3 / 2)"
    by (simp only: fold_time_def s1 h s2 m s3)
  then have "x_fold [Fin ?x] (Fin 0) (Fin 3) = [Fin (3 / 2)]" by (simp add: x_fold_def)
  with r3 rx show ?thesis by simp
qed




section \<open>Properties of the frame animation\<close>

lemma np_min_Inr:
  assumes "np_min d = Inr m"
  shows "concat (concat d) \<noteq> [] \<and> m = Min (set (concat (concat d)))"
proof (cases "concat (concat d)")
  case Nil
  with assms show ?thesis by (simp add: np_min_def)
next
  case (Cons p ps)
  with assms have "m = fold min ps p" by (simp add: np_min_def)
  also have "\<dots> = Min (set (p # ps))" by (rule Min.set_eq_fold [symmetric])
  finally show ?thesis by (simp only: Cons) simp
qed

lemma np_max_Inr:
  assumes "np_max d = Inr m"
  shows "concat (concat d) \<noteq> [] \<and> m = Max (set (concat (concat d)))"
proof (cases "concat (concat d)")
  case Nil
  with assms show ?thesis by (simp add: np_max_def)
next
  case (Cons p ps)
  with assms have "m = fold max ps p" by (simp add: np_max_def)
  also have "\<dots> = Max (set (p # ps))" by (rule Max.set_eq_fold [symmetric])
  finally show ?thesis by (simp only: Cons) simp
qed

lemma run_frames_bounds:
  "run_frames ani is = Inr rs \<Longrightarrow>
   list_all (\<lambda>r. im_vmin (snd r) = ani_vmin ani \<and> im_vmax (snd r) = ani_vmax ani) rs \<and>
   map fst rs = map (\<lambda>i. i + start ani) is"
proof (induction "is" arbitrary: rs)
  case Nil
  then show ?case by simp
next
  case (Cons i "is")
  from Cons.prems obtain r rs' where
    r: "animate ani i = Inr r" and rs': "run_frames ani is = Inr rs'" and eq: "rs = r # rs'"
    by (auto split: sum.splits)
  from r have "im_vmin (snd r) = ani_vmin ani \<and> im_vmax (snd r) = ani_vmax ani \<and> fst r = i + start ani"
    by (auto simp: animate_def split: sum.splits)
  with Cons.IH [OF rs'] eq show ?case by simp
qed

lemma run_frames_valid:
  "\<forall>i \<in> set is. 0 \<le> i + start ani \<and> i + start ani < int (length (binarytab ani)) \<Longrightarrow>
   run_frames ani is =
     Inr (map (\<lambda>i. (i + start ani,
                    \<lparr>im_data = binarytab ani ! nat (i + start ani),
                     im_vmin = ani_vmin ani, im_vmax = ani_vmax ani\<rparr>)) is)"
  by (induction "is") (simp_all add: animate_def getitem_def)

lemma make_animation_fields:
  assumes "make_animation d s e vmin vmax dl = Inr ani"
  shows "binarytab ani = d" "start ani = s"
    "ani_frames ani = (if py_not e then int (length d) - 1 else the e) - s + 1"
    "ani_interval ani = dl"
    "(if py_not vmin then np_min d else Inr (the vmin)) = Inr (ani_vmin ani)"
    "(if py_not vmax then np_max d else Inr (the vmax)) = Inr (ani_vmax ani)"
    "im_vmin (initial_plot ani) = ani_vmin ani" "im_vmax (initial_plot ani) = ani_vmax ani"
  using assms
  by (auto simp: make_animation_def Let_def split: sum.splits if_splits)

text \<open>
  With valid indices the animation plays the frames from \<open>start_frame\<close> to the effective
  end frame, both included; with every default it plays the whole cube.
\<close>

lemma make_animation_frame_range:
  assumes a: "make_animation d s e vmin vmax dl = Inr ani"
    and e': "e' = (if py_not e then int (length d) - 1 else the e)"
    and r: "0 \<le> s" "s \<le> e' + 1" "e' < int (length d)"
  shows "\<exists>rs. play ani = Inr rs \<and> int (length rs) = e' - s + 1 \<and>
              map fst rs = map (\<lambda>i. int i + s) [0 ..< nat (e' - s + 1)] \<and>
              map (im_data \<circ> snd) rs = map (\<lambda>i. d ! (i + nat s)) [0 ..< nat (e' - s + 1)]"
proof -
  note f = make_animation_fields [OF a]
  let ?is = "map int [0 ..< nat (ani_frames ani)]"
  have fr: "ani_frames ani = e' - s + 1" using f(3) e' by simp
  have "\<forall>i \<in> set ?is. 0 \<le> i + start ani \<and> i + start ani < int (length (binarytab ani))"
    using r fr f(1,2) by auto
  from run_frames_valid [OF this]
  have p: "play ani = Inr (map (\<lambda>i. (i + start ani,
                    \<lparr>im_data = binarytab ani ! nat (i + start ani),
                     im_vmin = ani_vmin ani, im_vmax = ani_vmax ani\<rparr>)) ?is)"
    by (simp add: play_def)
  have n: "nat (int i + s) = i + nat s" for i using r(1) by simp
  show ?thesis using r fr f(1,2)
    by (simp add: p comp_def n)
qed

lemma make_animation_default_all_frames:
  assumes "concat (concat d) \<noteq> []"
  shows "\<exists>ani rs. make_animation_default d = Inr ani \<and> play ani = Inr rs \<and>
                  length rs = length d \<and> map (im_data \<circ> snd) rs = d \<and>
                  map fst rs = map int [0 ..< length d]"
proof -
  from assms have ne: "d \<noteq> []" by auto
  from assms obtain p ps where c: "concat (concat d) = p # ps"
    by (cases "concat (concat d)") auto
  from ne have "\<exists>ani. make_animation d 0 None None None 50 = Inr ani"
    by (simp add: make_animation_def py_not_def np_min_def np_max_def c getitem_def)
  then obtain ani where a: "make_animation d 0 None None None 50 = Inr ani" ..
  from make_animation_frame_range [OF a, of "int (length d) - 1"] ne
  obtain rs where rs: "play ani = Inr rs" "int (length rs) = int (length d) - 1 - 0 + 1"
    "map fst rs = map (\<lambda>i. int i + 0) [0 ..< nat (int (length d) - 1 - 0 + 1)]"
    "map (im_data \<circ> snd) rs = map (\<lambda>i. d ! (i + nat 0)) [0 ..< nat (int (length d) - 1 - 0 + 1)]"
    by (auto simp: py_not_def)
  have "map (\<lambda>i. d ! i) [0 ..< length d] = d" by (rule map_nth)
  with rs a show ?thesis by (simp add: make_animation_default_def)
qed

text \<open>
  Claim C8. With default start and end the animation plays every frame, and with
  explicit indices it should play \<open>end_frame - start_frame + 1\<close> frames. The explicit
  end frame 0 is a valid index (the docstring: "the index of the final frame to show"),
  but \<open>not end_frame\<close> holds for it and the end is reset to the last frame: on a cube of
  three frames, \<open>start_frame = 0\<close> and \<open>end_frame = 0\<close> play three frames, epochs 0, 1
  and 2, where one frame is expected.
\<close>

theorem make_animation_end_frame_zero_shows_all:
  "\<exists>ani rs. make_animation example_cube 0 (Some 0) None None 50 = Inr ani \<and>
     play ani = Inr rs \<and> length rs = 3 \<and> map fst rs = [0, 1, 2]"
  by (simp add: make_animation_def example_cube_def py_not_def np_min_def np_max_def
        getitem_def play_def animate_def upt_rec)

text \<open>
  Claim C9. When neither \<open>vmin\<close> nor \<open>vmax\<close> is supplied and the call returns an
  animation, the bounds kept by the animation are the minimum and the maximum over all
  pixels of all frames; the initial plot uses them, and so does every frame shown when
  the animation is played.
\<close>

theorem make_animation_global_bounds:
  "make_animation d s e None None dl = Inr ani \<Longrightarrow>
   ani_vmin ani = Min (set (concat (concat d))) \<and>
   ani_vmax ani = Max (set (concat (concat d))) \<and>
   im_vmin (initial_plot ani) = Min (set (concat (concat d))) \<and>
   im_vmax (initial_plot ani) = Max (set (concat (concat d))) \<and>
   (\<forall>rs. play ani = Inr rs \<longrightarrow>
      (\<forall>r \<in> set rs. im_vmin (snd r) = Min (set (concat (concat d))) \<and>
                     im_vmax (snd r) = Max (set (concat (concat d)))))"
proof -
  assume a: "make_animation d s e None None dl = Inr ani"
  from make_animation_fields(5) [OF a] have "np_min d = Inr (ani_vmin ani)"
    by (simp add: py_not_def)
  then have mn: "ani_vmin ani = Min (set (concat (concat d)))"
    using np_min_Inr by blast
  from make_animation_fields(6) [OF a] have "np_max d = Inr (ani_vmax ani)"
    by (simp add: py_not_def)
  then have mx: "ani_vmax ani = Max (set (concat (concat d)))"
    using np_max_Inr by blast
  have "\<forall>r \<in> set rs. im_vmin (snd r) = Min (set (concat (concat d))) \<and>
                     im_vmax (snd r) = Max (set (concat (concat d)))"
    if "play ani = Inr rs" for rs
    using run_frames_bounds [of ani _ rs] that mn mx
    by (simp add: play_def list_all_iff)
  with mn mx make_animation_fields(7,8) [OF a] show ?thesis by simp
qed

theorem make_animation_global_bounds_witness:
  "\<exists>ani rs. make_animation example_cube 0 None None None 50 = Inr ani \<and>
     play ani = Inr rs \<and> length rs = 3 \<and>
     ani_vmin ani = Min (set (concat (concat example_cube))) \<and> ani_vmin ani = 0 \<and>
     ani_vmax ani = Max (set (concat (concat example_cube))) \<and> ani_vmax ani = 6 \<and>
     map (im_vmin \<circ> snd) rs = [0, 0, 0] \<and> map (im_vmax \<circ> snd) rs = [6, 6, 6]"
proof -
  define A where "A = \<lparr>initial_plot = \<lparr>im_data = [[1, 2]], im_vmin = 0, im_vmax = 6\<rparr>,
        binarytab = example_cube, start = 0,
        ani_frames = 3, ani_interval = 50, repeat_delay = 1000,
        ani_vmin = 0, ani_vmax = 6\<rparr>"
  have m: "make_animation example_cube 0 None None None 50 = Inr A"
    by (simp add: A_def make_animation_def example_cube_def py_not_def np_min_def np_max_def
        getitem_def)
  have p: "play A = Inr [(0, \<lparr>im_data = [[1, 2]], im_vmin = 0, im_vmax = 6\<rparr>),
      (1, \<lparr>im_data = [[3, 4]], im_vmin = 0, im_vmax = 6\<rparr>),
      (2, \<lparr>im_data = [[0, 6]], im_vmin = 0, im_vmax = 6\<rparr>)]"
    by (simp add: A_def play_def animate_def getitem_def example_cube_def upt_rec)
  from make_animation_global_bounds [OF m] have "ani_vmin A = Min (set (concat (concat example_cube)))"
    "ani_vmax A = Max (set (concat (concat example_cube)))" by blast+
  moreover have "ani_vmin A = 0" "ani_vmax A = 6" by (simp_all add: A_def)
  ultimately show ?thesis using m p by simp
qed

text \<open>
  Claim C10. The optional arguments are tested by truthiness: passing \<open>vmin = 0\<close>,
  \<open>vmax = 0\<close> or \<open>end_frame = 0\<close> gives the same result as leaving that argument out.
  So an explicit \<open>vmin = 0\<close> (\<open>vmax = 0\<close>) is replaced by the global minimum (maximum)
  of the data, and an explicit \<open>end_frame = 0\<close> by the index of the last frame, which
  makes the number of frames \<open>(len(data_array) - 1) - start_frame + 1\<close>.
\<close>

theorem make_animation_zero_is_absent:
  "make_animation d s e (Some 0) vmax dl = make_animation d s e None vmax dl \<and>
   make_animation d s e vmin (Some 0) dl = make_animation d s e vmin None dl \<and>
   make_animation d s (Some 0) vmin vmax dl = make_animation d s None vmin vmax dl \<and>
   (\<forall>ani. make_animation d s e (Some 0) vmax dl = Inr ani \<longrightarrow>
      ani_vmin ani = Min (set (concat (concat d)))) \<and>
   (\<forall>ani. make_animation d s e vmin (Some 0) dl = Inr ani \<longrightarrow>
      ani_vmax ani = Max (set (concat (concat d)))) \<and>
   (\<forall>ani. make_animation d s (Some 0) vmin vmax dl = Inr ani \<longrightarrow>
      ani_frames ani = (int (length d) - 1) - s + 1)"
proof -
  have e1: "make_animation d s e (Some 0) vmax dl = make_animation d s e None vmax dl"
    by (simp add: make_animation_def py_not_def)
  have e2: "make_animation d s e vmin (Some 0) dl = make_animation d s e vmin None dl"
    by (simp add: make_animation_def py_not_def)
  have e3: "make_animation d s (Some 0) vmin vmax dl = make_animation d s None vmin vmax dl"
    by (simp add: make_animation_def py_not_def)
  have v1: "ani_vmin ani = Min (set (concat (concat d)))"
    if a: "make_animation d s e (Some 0) vmax dl = Inr ani" for ani
  proof -
    from make_animation_fields(5) [OF a] have "np_min d = Inr (ani_vmin ani)"
      by (simp add: py_not_def)
    then show ?thesis using np_min_Inr by blast
  qed
  have v2: "ani_vmax ani = Max (set (concat (concat d)))"
    if a: "make_animation d s e vmin (Some 0) dl = Inr ani" for ani
  proof -
    from make_animation_fields(6) [OF a] have "np_max d = Inr (ani_vmax ani)"
      by (simp add: py_not_def)
    then show ?thesis using np_max_Inr by blast
  qed
  have v3: "ani_frames ani = (int (length d) - 1) - s + 1"
    if a: "make_animation d s (Some 0) vmin vmax dl = Inr ani" for ani
    using make_animation_fields(3) [OF a] by (simp add: py_not_def)
  from e1 e2 e3 v1 v2 v3 show ?thesis by blast
qed

theorem make_animation_zero_is_absent_witness:
  "\<exists>ani rs. make_animation example_cube 1 (Some 0) (Some 0) (Some 0) 50 = Inr ani \<and>
     make_animation example_cube 1 None None None 50 = Inr ani \<and>
     ani_vmin ani = 0 \<and> ani_vmax ani = 6 \<and> ani_frames ani = 2 \<and>
     play ani = Inr rs \<and> map fst rs = [1, 2]"
proof -
  define A where "A = \<lparr>initial_plot = \<lparr>im_data = [[3, 4]], im_vmin = 0, im_vmax = 6\<rparr>,
        binarytab = example_cube, start = 1,
        ani_frames = 2, ani_interval = 50, repeat_delay = 1000,
        ani_vmin = 0, ani_vmax = 6\<rparr>"
  have m: "make_animation example_cube 1 (Some 0) (Some 0) (Some 0) 50 = Inr A"
    by (simp add: A_def make_animation_def example_cube_def py_not_def np_min_def np_max_def
        getitem_def)
  have p: "map fst (projr (play A)) = [1, 2] \<and> isl (play A) = False"
    by (simp add: A_def play_def animate_def getitem_def example_cube_def upt_rec)
  then obtain rs where rs: "play A = Inr rs" "map fst rs = [1, 2]"
    by (cases "play A") auto
  note c = make_animation_zero_is_absent [where d = example_cube and s = 1 and dl = 50 and e = "Some 0"
      and vmin = "Some 0" and vmax = "Some 0"]
  note c' = make_animation_zero_is_absent [where d = example_cube and s = 1 and dl = 50 and e = "Some 0"
      and vmin = None and vmax = "Some 0"]
  note c'' = make_animation_zero_is_absent [where d = example_cube and s = 1 and dl = 50 and e = "Some 0"
      and vmin = None and vmax = None]
  from c have "make_animation example_cube 1 (Some 0) None (Some 0) 50 = Inr A"
    using m by simp
  with c' have "make_animation example_cube 1 (Some 0) None None 50 = Inr A"
    by simp
  with c'' have n: "make_animation example_cube 1 None None None 50 = Inr A"
    by simp
  from c m have "ani_frames A = (int (length example_cube) - 1) - 1 + 1" by blast
  then have "ani_frames A = 2" by (simp add: example_cube_def)
  moreover have "ani_vmin A = 0" "ani_vmax A = 6" by (simp_all add: A_def)
  ultimately show ?thesis using m n rs
    by (intro exI [of _ A] exI [of _ rs]) simp
qed

section \<open>Properties of the JSON to table conversion\<close>

lemma rx_search_exact:
  assumes "list_all is_digit ds" "ds \<noteq> []"
  shows "rx_search (''varchar('' @ ds @ '')'') = Some ds"
proof -
  have nd: "\<not> is_digit CHR '')''" by (simp add: is_digit_def)
  from assms(1) have "\<forall>d \<in> set ds. is_digit d" by (simp add: list_all_iff)
  then have tw: "takeWhile is_digit (ds @ '')'') = ds" "dropWhile is_digit (ds @ '')'') = '')''"
    using nd by simp_all
  have "rx_match_at (''varchar('' @ ds @ '')'') = Some ds"
    using assms(2) tw by (simp add: rx_match_at_def)
  then show ?thesis by simp
qed

lemma column_dtype_varchar:
  assumes "list_all is_digit ds" "ds \<noteq> []"
  shows "column_dtype (''varchar('' @ ds @ '')'') = Inr (''U'' @ ds)"
proof -
  have c: "contains ''varchar'' (''varchar('' @ ds @ '')'')" by simp
  show ?thesis
    unfolding column_dtype_def using c rx_search_exact [OF assms] by simp
qed

lemma column_dtype_real: "column_dtype ''real'' = Inr ''float''"
  by (simp add: column_dtype_def)

lemma column_dtype_other:
  "\<not> contains ''varchar'' t \<Longrightarrow> t \<noteq> ''real'' \<Longrightarrow> column_dtype t = Inr t"
  by (simp add: column_dtype_def)

lemma convert_all_nth:
  "convert_all other dt vals = Inr cs \<Longrightarrow>
   length cs = length vals \<and> (\<forall>r < length vals. np_convert other dt (vals ! r) = Inr (cs ! r))"
proof (induction vals arbitrary: cs)
  case Nil
  then show ?case by simp
next
  case (Cons v vs)
  from Cons.prems obtain c cs' where
    c: "np_convert other dt v = Inr c" and cs': "convert_all other dt vs = Inr cs'"
    and eq: "cs = c # cs'"
    by (auto split: sum.splits)
  from Cons.IH [OF cs'] c eq show ?case by (auto simp: nth_Cons split: nat.splits)
qed

lemma np_array_nth:
  assumes "np_array other vals dt = Inr arr"
  shows "dtype arr = dt" "length (items arr) = length vals"
    "r < length vals \<Longrightarrow> np_convert other dt (vals ! r) = Inr (items arr ! r)"
proof -
  from assms obtain cs where cs: "convert_all other dt vals = Inr cs" and arr: "arr = NdArray dt cs"
    by (auto simp: np_array_def split: sum.splits)
  from arr show "dtype arr = dt" by simp
  from convert_all_nth [OF cs] arr show "length (items arr) = length vals" by simp
  from convert_all_nth [OF cs] arr show "r < length vals \<Longrightarrow> np_convert other dt (vals ! r) = Inr (items arr ! r)"
    by simp
qed

lemma keys_setitem:
  "map fst (setitem tbl c arr) = (if c \<in> set (map fst tbl) then map fst tbl else map fst tbl @ [c])"
  by (induction tbl c arr rule: setitem.induct) auto

lemma map_of_setitem:
  "map_of (setitem tbl c arr) = (map_of tbl)(c \<mapsto> arr)"
  by (induction tbl c arr rule: setitem.induct) (auto simp: fun_eq_iff)

lemma fill_table_snoc:
  "fill_table other data (ps @ [(col, atype)]) tbl =
     (case fill_table other data ps tbl of
        Inl e \<Rightarrow> Inl e
      | Inr t \<Rightarrow>
          (case make_column other data (strip col) atype of
             Inl e \<Rightarrow> Inl e
           | Inr arr \<Rightarrow> Inr (setitem t (strip col) arr)))"
  by (induction other data ps tbl rule: fill_table.induct) (auto split: sum.splits)

lemma fill_table_spec:
  "fill_table other data ps [] = Inr tbl \<Longrightarrow>
   map fst tbl = rev (remdups (rev (map (\<lambda>p. strip (fst p)) ps))) \<and>
   (\<forall>c. map_of tbl c =
      (case find (\<lambda>p. strip (fst p) = c) (rev ps) of
         None \<Rightarrow> None
       | Some p \<Rightarrow> (case make_column other data c (snd p) of Inl e \<Rightarrow> None | Inr arr \<Rightarrow> Some arr)))"
proof (induction ps arbitrary: tbl rule: rev_induct)
  case Nil
  then show ?case by simp
next
  case (snoc p ps)
  obtain col atype where p: "p = (col, atype)" by (cases p)
  from snoc.prems obtain t arr where
    t: "fill_table other data ps [] = Inr t" and
    arr: "make_column other data (strip col) atype = Inr arr" and
    tbl: "tbl = setitem t (strip col) arr"
    unfolding p fill_table_snoc by (auto split: sum.splits)
  note ih = snoc.IH [OF t]
  have k: "map fst tbl = rev (remdups (rev (map (\<lambda>p. strip (fst p)) (ps @ [p]))))"
    using ih by (simp add: tbl keys_setitem p)
  have m: "map_of tbl c =
      (case find (\<lambda>p. strip (fst p) = c) (rev (ps @ [p])) of
         None \<Rightarrow> None
       | Some p \<Rightarrow> (case make_column other data c (snd p) of Inl e \<Rightarrow> None | Inr arr \<Rightarrow> Some arr))" for c
    using ih arr by (simp add: tbl map_of_setitem p)
  from k m show ?case by blast
qed

lemma find_last:
  "i < length ps \<Longrightarrow> P (ps ! i) \<Longrightarrow> \<forall>j. i < j \<and> j < length ps \<longrightarrow> \<not> P (ps ! j) \<Longrightarrow>
   find P (rev ps) = Some (ps ! i)"
proof (induction ps rule: rev_induct)
  case Nil
  then show ?case by simp
next
  case (snoc x ps)
  show ?case
  proof (cases "i = length ps")
    case True
    with snoc.prems(2) show ?thesis by simp
  next
    case False
    with snoc.prems(1) have i: "i < length ps" by simp
    with snoc.prems(3) have nx: "\<not> P x" by (auto dest: spec [of _ "length ps"])
    have "\<forall>j. i < j \<and> j < length ps \<longrightarrow> \<not> P (ps ! j)"
    proof (intro allI impI)
      fix j assume j: "i < j \<and> j < length ps"
      then have "\<not> P ((ps @ [x]) ! j)" using snoc.prems(3) by simp
      with j show "\<not> P (ps ! j)" by (simp add: nth_append)
    qed
    from snoc.IH [OF i _ this] snoc.prems(2) i nx show ?thesis by (simp add: nth_append)
  qed
qed

lemma field_pairs_nth:
  "field_pairs fs = Inr ps \<Longrightarrow>
   length ps = length fs \<and>
   (\<forall>i < length fs. (fs ! i) ''colname'' = Some (fst (ps ! i)) \<and>
                     (fs ! i) ''datatype'' = Some (snd (ps ! i)))"
proof (induction fs arbitrary: ps)
  case Nil
  then show ?case by simp
next
  case (Cons f fs)
  from Cons.prems obtain col atype ps' where
    f: "f ''colname'' = Some col" "f ''datatype'' = Some atype" and
    ps': "field_pairs fs = Inr ps'" and eq: "ps = (col, atype) # ps'"
    by (auto split: option.splits sum.splits)
  from Cons.IH [OF ps'] f eq show ?case by (auto simp: nth_Cons split: nat.splits)
qed

lemma json_to_table_fill:
  assumes "json_to_table other fs data = Inr tbl"
  shows "\<exists>ps. field_pairs fs = Inr ps \<and> fill_table other data ps [] = Inr tbl"
  using assms by (auto simp: json_to_table_def split: sum.splits)

lemma json_to_table_lookup:
  assumes "json_to_table other fs data = Inr tbl" "map_of tbl c = Some arr"
  shows "\<exists>atype dt. column_dtype atype = Inr dt \<and>
           np_array other (map (\<lambda>x. dict_get x c) data) dt = Inr arr"
proof -
  from json_to_table_fill [OF assms(1)] obtain ps where
    f: "fill_table other data ps [] = Inr tbl" by blast
  from fill_table_spec [OF f] assms(2) obtain p :: "string \<times> string" where
    "make_column other data c (snd p) = Inr arr"
    by (auto split: option.splits sum.splits)
  then show ?thesis by (auto simp: make_column_def split: sum.splits)
qed

lemma json_to_table_column:
  assumes t: "json_to_table other fs data = Inr tbl"
    and i: "i < length fs" "(fs ! i) ''colname'' = Some col" "(fs ! i) ''datatype'' = Some atype"
    and last: "\<forall>j. i < j \<and> j < length fs \<longrightarrow>
              (\<forall>col'. (fs ! j) ''colname'' = Some col' \<longrightarrow> strip col' \<noteq> strip col)"
  shows "\<exists>dt arr. column_dtype atype = Inr dt \<and>
           np_array other (map (\<lambda>x. dict_get x (strip col)) data) dt = Inr arr \<and>
           map_of tbl (strip col) = Some arr"
proof -
  from json_to_table_fill [OF t] obtain ps where
    ps: "field_pairs fs = Inr ps" and f: "fill_table other data ps [] = Inr tbl" by blast
  note n = field_pairs_nth [OF ps]
  from n i have pi: "ps ! i = (col, atype)" by (simp add: prod_eq_iff)
  let ?P = "\<lambda>p. strip (fst p) = strip col"
  have il: "i < length ps" using n i(1) by simp
  have "\<forall>j. i < j \<and> j < length ps \<longrightarrow> \<not> ?P (ps ! j)"
    using n last by auto
  from find_last [of i ps ?P, OF il _ this] pi
  have fl: "find ?P (rev ps) = Some (col, atype)" by simp
  note sp = fill_table_spec [OF f]
  from il pi have "strip col \<in> set (map fst tbl)"
    using sp by (force simp: in_set_conv_nth)
  then have "map_of tbl (strip col) \<noteq> None"
    by (simp add: map_of_eq_None_iff)
  with sp fl obtain arr where
    m: "make_column other data (strip col) atype = Inr arr" "map_of tbl (strip col) = Some arr"
    by (auto split: sum.splits)
  from m(1) obtain dt where "column_dtype atype = Inr dt"
    "np_array other (map (\<lambda>x. dict_get x (strip col)) data) dt = Inr arr"
    by (auto simp: make_column_def split: sum.splits)
  with m(2) show ?thesis by blast
qed

lemma json_to_table_keys:
  assumes "json_to_table other fs data = Inr tbl"
  shows "\<exists>ps. field_pairs fs = Inr ps \<and>
           map fst tbl = rev (remdups (rev (map (\<lambda>p. strip (fst p)) ps))) \<and> distinct (map fst tbl)"
proof -
  from json_to_table_fill [OF assms] obtain ps where
    ps: "field_pairs fs = Inr ps" and f: "fill_table other data ps [] = Inr tbl" by blast
  from fill_table_spec [OF f] ps show ?thesis by auto
qed

lemmas json_eval =
  json_to_table_def make_column_def column_dtype_def rx_match_at_def is_digit_def
  strip_def is_space_def np_array_def np_convert_def unicode_width_def digit_val_def dict_get_def

lemma example_table:
  "json_to_table other example_fields example_data =
     Inr [(''a'', NdArray ''U3'' [PyStr ''xy'', PyStr ''Non'']),
          (''b'', NdArray ''float'' [PyFloat 1.5, PyFloat 2.5])]"
  by (simp add: example_fields_def example_data_def json_eval)

lemma json_to_table_varchar_without_width:
  "json_to_table other [[''colname'' \<mapsto> ''a'', ''datatype'' \<mapsto> ''varchar'']] [[''a'' \<mapsto> PyStr ''xy'']]
   = Inl AttributeError"
  by (simp add: json_eval)

lemma duplicate_table:
  "json_to_table other duplicate_fields duplicate_data =
     Inr [(''a'', NdArray ''U1'' [PyStr ''x'', PyStr ''N'']),
          (''b'', NdArray ''float'' [PyFloat 1.5, PyFloat 2.5])]"
  by (simp add: duplicate_fields_def duplicate_data_def json_eval)

lemma np_convert_missing:
  "np_convert other ''float'' PyNone = Inr PyNaN"
  "unicode_width dt = Some n \<Longrightarrow> np_convert other dt PyNone = Inr (PyStr (take n ''None''))"
  by (simp_all add: np_convert_def unicode_width_def)

text \<open>
  The conversion returns a table exactly when nothing raises on the way: every
  descriptor has both keys and every column can be built.
\<close>

lemma field_pairs_succeeds:
  "\<forall>f \<in> set fs. f ''colname'' \<noteq> None \<and> f ''datatype'' \<noteq> None \<Longrightarrow>
   field_pairs fs = Inr (map (\<lambda>f. (the (f ''colname''), the (f ''datatype''))) fs)"
  by (induction fs) auto

lemma fill_table_succeeds:
  "\<forall>p \<in> set ps. \<exists>arr. make_column other data (strip (fst p)) (snd p) = Inr arr \<Longrightarrow>
   \<exists>tbl'. fill_table other data ps tbl = Inr tbl'"
proof (induction ps arbitrary: tbl)
  case Nil
  then show ?case by simp
next
  case (Cons p ps)
  obtain col atype where p: "p = (col, atype)" by (cases p)
  from Cons.prems p obtain arr where "make_column other data (strip col) atype = Inr arr"
    by auto
  moreover from Cons.prems have
    "\<exists>tbl'. fill_table other data ps (setitem tbl (strip col) arr) = Inr tbl'"
    by (intro Cons.IH) simp
  ultimately show ?case by (simp add: p)
qed

lemma json_to_table_succeeds:
  assumes "\<forall>f \<in> set fs. \<exists>col atype arr. f ''colname'' = Some col \<and> f ''datatype'' = Some atype \<and>
             make_column other data (strip col) atype = Inr arr"
  shows "\<exists>tbl. json_to_table other fs data = Inr tbl"
proof -
  let ?ps = "map (\<lambda>f. (the (f ''colname''), the (f ''datatype''))) fs"
  from assms have "\<forall>f \<in> set fs. f ''colname'' \<noteq> None \<and> f ''datatype'' \<noteq> None" by fastforce
  then have fp: "field_pairs fs = Inr ?ps" by (rule field_pairs_succeeds)
  from assms have "\<forall>p \<in> set ?ps. \<exists>arr. make_column other data (strip (fst p)) (snd p) = Inr arr"
    by fastforce
  from fill_table_succeeds [OF this, of "[]"] fp show ?thesis
    by (simp add: json_to_table_def)
qed

text \<open>
  Claim C5, as amended. When \<open>json_to_table\<close> returns a table, its column names are the
  stripped column names of the descriptors in order of first occurrence; when these names
  are distinct, column \<open>i\<close> belongs to descriptor \<open>i\<close> and its dtype is the one derived
  from that descriptor's declared type. The derivation: \<open>varchar(N)\<close> gives \<open>U\<close> followed
  by the digits of \<open>N\<close> (numpy's fixed-width string of \<open>N\<close> characters), \<open>real\<close> gives
  \<open>float\<close>, and a declared type that does not contain the text \<open>varchar\<close> and is not
  \<open>real\<close> is used unchanged.
\<close>

theorem json_to_table_order_and_types:
  assumes t: "json_to_table other fs data = Inr tbl"
  shows "(\<exists>ps. field_pairs fs = Inr ps \<and>
           map fst tbl = rev (remdups (rev (map (\<lambda>p. strip (fst p)) ps))) \<and>
           (distinct (map (\<lambda>p. strip (fst p)) ps) \<longrightarrow>
              length tbl = length ps \<and>
              (\<forall>i < length ps. fst (tbl ! i) = strip (fst (ps ! i)) \<and>
                               column_dtype (snd (ps ! i)) = Inr (dtype (snd (tbl ! i)))))) \<and>
         (\<forall>ds. list_all is_digit ds \<and> ds \<noteq> [] \<longrightarrow>
               column_dtype (''varchar('' @ ds @ '')'') = Inr (''U'' @ ds)) \<and>
         column_dtype ''real'' = Inr ''float'' \<and>
         (\<forall>ty. \<not> contains ''varchar'' ty \<and> ty \<noteq> ''real'' \<longrightarrow> column_dtype ty = Inr ty)"
proof -
  from json_to_table_keys [OF t] obtain ps where
    ps: "field_pairs fs = Inr ps" and
    k: "map fst tbl = rev (remdups (rev (map (\<lambda>p. strip (fst p)) ps)))" and
    dk: "distinct (map fst tbl)"
    by blast
  note n = field_pairs_nth [OF ps]
  let ?names = "map (\<lambda>p. strip (fst p)) ps"
  have dist: "length tbl = length ps \<and>
              (\<forall>i < length ps. fst (tbl ! i) = strip (fst (ps ! i)) \<and>
                               column_dtype (snd (ps ! i)) = Inr (dtype (snd (tbl ! i))))"
    if d: "distinct ?names"
  proof -
    from d have k': "map fst tbl = ?names" using k by (simp add: distinct_remdups_id)
    then have len: "length tbl = length ps" by (metis length_map)
    have col: "fst (tbl ! i) = strip (fst (ps ! i)) \<and>
               column_dtype (snd (ps ! i)) = Inr (dtype (snd (tbl ! i)))" if i: "i < length ps" for i
    proof -
      from i len have it: "i < length tbl" by simp
      have "map fst tbl ! i = ?names ! i" using k' by simp
      with i it have f: "fst (tbl ! i) = strip (fst (ps ! i))" by simp
      have "tbl ! i \<in> set tbl" using it by simp
      then have "(fst (tbl ! i), snd (tbl ! i)) \<in> set tbl" by simp
      with dk have m: "map_of tbl (fst (tbl ! i)) = Some (snd (tbl ! i))"
        by (rule map_of_is_SomeI)
      have ifs: "i < length fs" using n i by simp
      have later: "\<forall>j. i < j \<and> j < length fs \<longrightarrow>
          (\<forall>col'. (fs ! j) ''colname'' = Some col' \<longrightarrow> strip col' \<noteq> strip (fst (ps ! i)))"
      proof (intro allI impI)
        fix j col'
        assume j: "i < j \<and> j < length fs" and c: "(fs ! j) ''colname'' = Some col'"
        from j n c have "col' = fst (ps ! j)" by auto
        moreover from d have "\<forall>a < length ?names. \<forall>b < length ?names.
            a \<noteq> b \<longrightarrow> ?names ! a \<noteq> ?names ! b"
          by (simp only: distinct_conv_nth)
        then have "?names ! j \<noteq> ?names ! i"
          using j i n by auto
        ultimately show "strip col' \<noteq> strip (fst (ps ! i))" using j i n by simp
      qed
      from n ifs have "(fs ! i) ''colname'' = Some (fst (ps ! i))"
        "(fs ! i) ''datatype'' = Some (snd (ps ! i))" by simp_all
      from json_to_table_column [OF t ifs this later] obtain dt arr where
        a: "column_dtype (snd (ps ! i)) = Inr dt"
           "np_array other (map (\<lambda>x. dict_get x (strip (fst (ps ! i)))) data) dt = Inr arr"
           "map_of tbl (strip (fst (ps ! i))) = Some arr"
        by blast
      from a(3) m f have "arr = snd (tbl ! i)" by simp
      with a(1) np_array_nth(1) [OF a(2)] f show ?thesis by simp
    qed
    from len col show ?thesis by blast
  qed
  have v: "\<forall>ds. list_all is_digit ds \<and> ds \<noteq> [] \<longrightarrow>
               column_dtype (''varchar('' @ ds @ '')'') = Inr (''U'' @ ds)"
    using column_dtype_varchar by blast
  have o: "\<forall>ty. \<not> contains ''varchar'' ty \<and> ty \<noteq> ''real'' \<longrightarrow> column_dtype ty = Inr ty"
    using column_dtype_other by blast
  from ps k dist v o column_dtype_real show ?thesis by blast
qed

theorem json_to_table_order_and_types_witness:
  "json_to_table raising example_fields example_data =
     Inr [(''a'', NdArray ''U3'' [PyStr ''xy'', PyStr ''Non'']),
          (''b'', NdArray ''float'' [PyFloat 1.5, PyFloat 2.5])] \<and>
   field_pairs example_fields = Inr [(''a'', ''varchar(3)''), (''b'', ''real'')] \<and>
   distinct (map (\<lambda>p. strip (fst p)) [(''a'', ''varchar(3)''), (''b'', ''real'')]) \<and>
   column_dtype ''varchar(3)'' = Inr ''U3'' \<and> column_dtype ''real'' = Inr ''float'' \<and>
   \<not> contains ''varchar'' ''int'' \<and> column_dtype ''int'' = Inr ''int''"
proof -
  let ?T = "[(''a'', NdArray ''U3'' [PyStr ''xy'', PyStr ''Non'']),
             (''b'', NdArray ''float'' [PyFloat 1.5, PyFloat 2.5])]"
  have t: "json_to_table raising example_fields example_data = Inr ?T"
    by (rule example_table)
  note th = json_to_table_order_and_types [OF t]
  have fp: "field_pairs example_fields = Inr [(''a'', ''varchar(3)''), (''b'', ''real'')]"
    by (simp add: example_fields_def)
  have di: "distinct (map (\<lambda>p. strip (fst p)) [(''a'', ''varchar(3)''), (''b'', ''real'')])"
    by (simp add: strip_def is_space_def)
  have dg: "list_all is_digit ''3'' \<and> ''3'' \<noteq> []" by (simp add: is_digit_def)
  from th dg have "column_dtype (''varchar('' @ ''3'' @ '')'') = Inr (''U'' @ ''3'')" by blast
  then have v: "column_dtype ''varchar(3)'' = Inr ''U3''" by simp
  have ni: "\<not> contains ''varchar'' ''int'' \<and> ''int'' \<noteq> ''real''" by simp
  from th ni have i: "column_dtype ''int'' = Inr ''int''" by blast
  from th have r: "column_dtype ''real'' = Inr ''float''" by blast
  from t fp di v r ni i show ?thesis by blast
qed

text \<open>
  The claim as it stands says that every declared type other than \<open>varchar(N)\<close> and
  \<open>real\<close> is used unchanged. The test is \<open>"varchar" in atype\<close>, so the declared type
  \<open>nvarchar(5)\<close> becomes \<open>U5\<close>.
\<close>

theorem json_to_table_other_type_counterexample:
  "\<forall>other. \<exists>tbl arr.
     json_to_table other [[''colname'' \<mapsto> ''a'', ''datatype'' \<mapsto> ''nvarchar(5)'']]
        [[''a'' \<mapsto> PyStr ''xy'']] = Inr tbl \<and>
     map_of tbl ''a'' = Some arr \<and> dtype arr = ''U5'' \<and> dtype arr \<noteq> ''nvarchar(5)''"
  by (simp add: json_eval)

text \<open>
  Claim C6, as amended. Each cell of a column is numpy's conversion, under the column's
  dtype, of the value that the row gives for the column's name; a row without that key
  gives \<open>None\<close> and no \<open>KeyError\<close>. The \<open>None\<close> is then converted as any other value:
  to NaN in a \<open>float\<close> column and to the text \<open>None\<close> cut to \<open>N\<close> characters in a
  \<open>U\<close>\<open>N\<close> column. In the example of the specification column \<open>a\<close> is \<open>xy\<close>,
  \<open>Non\<close> and column \<open>b\<close> is 1.5, 2.5.
\<close>

theorem json_to_table_cells:
  assumes t: "json_to_table other fs data = Inr tbl" and m: "map_of tbl c = Some arr"
  shows "length (items arr) = length data \<and>
         (\<forall>r < length data.
            np_convert other (dtype arr) (dict_get (data ! r) c) = Inr (items arr ! r)) \<and>
         (\<forall>r < length data. (data ! r) c = None \<longrightarrow>
            dict_get (data ! r) c = PyNone \<and>
            (dtype arr = ''float'' \<longrightarrow> items arr ! r = PyNaN) \<and>
            (\<forall>n. unicode_width (dtype arr) = Some n \<longrightarrow>
                 items arr ! r = PyStr (take n ''None''))) \<and>
         json_to_table other example_fields example_data =
           Inr [(''a'', NdArray ''U3'' [PyStr ''xy'', PyStr ''Non'']),
                (''b'', NdArray ''float'' [PyFloat 1.5, PyFloat 2.5])]"
proof -
  from json_to_table_lookup [OF t m] obtain dt where
    a: "np_array other (map (\<lambda>x. dict_get x c) data) dt = Inr arr" by blast
  note na = np_array_nth [OF a]
  have len: "length (items arr) = length data" using na(2) by simp
  have cell: "np_convert other (dtype arr) (dict_get (data ! r) c) = Inr (items arr ! r)"
    if "r < length data" for r
    using na(3) [of r] na(1) that by simp
  have miss: "dict_get (data ! r) c = PyNone \<and>
            (dtype arr = ''float'' \<longrightarrow> items arr ! r = PyNaN) \<and>
            (\<forall>n. unicode_width (dtype arr) = Some n \<longrightarrow>
                 items arr ! r = PyStr (take n ''None''))"
    if r: "r < length data" and none: "(data ! r) c = None" for r
  proof -
    from none have g: "dict_get (data ! r) c = PyNone" by (simp add: dict_get_def)
    from cell [OF r] g have e: "np_convert other (dtype arr) PyNone = Inr (items arr ! r)"
      by simp
    have f: "items arr ! r = PyNaN" if "dtype arr = ''float''"
      using e that np_convert_missing(1) [of other] by simp
    have u: "items arr ! r = PyStr (take n ''None'')" if "unicode_width (dtype arr) = Some n" for n
      using e np_convert_missing(2) [OF that, of other] by simp
    from g f u show ?thesis by blast
  qed
  from len cell miss example_table [of other] show ?thesis by blast
qed

theorem json_to_table_cells_witness:
  "json_to_table raising example_fields example_data =
     Inr [(''a'', NdArray ''U3'' [PyStr ''xy'', PyStr ''Non'']),
          (''b'', NdArray ''float'' [PyFloat 1.5, PyFloat 2.5])] \<and>
   map_of [(''a'', NdArray ''U3'' [PyStr ''xy'', PyStr ''Non'']),
           (''b'', NdArray ''float'' [PyFloat 1.5, PyFloat 2.5])] ''a''
     = Some (NdArray ''U3'' [PyStr ''xy'', PyStr ''Non'']) \<and>
   (1::nat) < length example_data \<and> (example_data ! 1) ''a'' = None \<and>
   unicode_width ''U3'' = Some 3 \<and>
   items (NdArray ''U3'' [PyStr ''xy'', PyStr ''Non'']) ! 1 = PyStr (take 3 ''None'')"
proof -
  let ?A = "NdArray ''U3'' [PyStr ''xy'', PyStr ''Non'']"
  let ?T = "[(''a'', ?A), (''b'', NdArray ''float'' [PyFloat 1.5, PyFloat 2.5])]"
  have t: "json_to_table raising example_fields example_data = Inr ?T"
    by (rule example_table)
  have m: "map_of ?T ''a'' = Some ?A" by simp
  have r: "(1::nat) < length example_data" and k: "(example_data ! 1) ''a'' = None"
    by (simp_all add: example_data_def)
  have w: "unicode_width ''U3'' = Some 3"
    by (simp add: unicode_width_def is_digit_def digit_val_def)
  then have w': "unicode_width (dtype ?A) = Some 3" by simp
  from json_to_table_cells [OF t m] r k w'
  have "items ?A ! 1 = PyStr (take 3 ''None'')" by blast
  with t m r k w show ?thesis by blast
qed

text \<open>
  The claim as it stands gives the empty string for the missing cell of column \<open>a\<close>;
  the cell is \<open>Non\<close>.
\<close>

theorem json_to_table_missing_key_counterexample:
  "\<forall>other. \<exists>tbl arr.
     json_to_table other example_fields example_data = Inr tbl \<and>
     map_of tbl ''a'' = Some arr \<and>
     items arr = [PyStr ''xy'', PyStr ''Non''] \<and> items arr \<noteq> [PyStr ''xy'', PyStr []]"
  by (simp add: example_fields_def example_data_def json_eval)

text \<open>
  Claim C7. When several descriptors carry the same (stripped) column name, the table has
  one column of that name, and its dtype and cells are those built from the last such
  descriptor: the dtype derived from its declared type, the cells converted under that
  dtype.
\<close>

theorem json_to_table_last_wins:
  assumes "json_to_table other fs data = Inr tbl"
    and "i < length fs" "(fs ! i) ''colname'' = Some col" "(fs ! i) ''datatype'' = Some atype"
    and "\<forall>j. i < j \<and> j < length fs \<longrightarrow>
              (\<forall>col'. (fs ! j) ''colname'' = Some col' \<longrightarrow> strip col' \<noteq> strip col)"
  shows "\<exists>dt arr. column_dtype atype = Inr dt \<and>
           np_array other (map (\<lambda>x. dict_get x (strip col)) data) dt = Inr arr \<and>
           map_of tbl (strip col) = Some arr \<and> dtype arr = dt \<and>
           distinct (map fst tbl)"
proof -
  from json_to_table_column [OF assms] obtain dt arr where
    a: "column_dtype atype = Inr dt"
       "np_array other (map (\<lambda>x. dict_get x (strip col)) data) dt = Inr arr"
       "map_of tbl (strip col) = Some arr"
    by blast
  from json_to_table_keys [OF assms(1)] have d: "distinct (map fst tbl)" by blast
  from d a np_array_nth(1) [OF a(2)] show ?thesis by blast
qed

theorem json_to_table_last_wins_witness:
  "json_to_table raising duplicate_fields duplicate_data =
     Inr [(''a'', NdArray ''U1'' [PyStr ''x'', PyStr ''N'']),
          (''b'', NdArray ''float'' [PyFloat 1.5, PyFloat 2.5])] \<and>
   (1::nat) < length duplicate_fields \<and>
   (duplicate_fields ! 1) ''colname'' = Some ''a'' \<and>
   (duplicate_fields ! 1) ''datatype'' = Some ''varchar(1)'' \<and>
   (duplicate_fields ! 0) ''colname'' = Some ''a'' \<and>
   (\<exists>dt arr. column_dtype ''varchar(1)'' = Inr dt \<and>
      np_array raising (map (\<lambda>x. dict_get x (strip ''a'')) duplicate_data) dt = Inr arr \<and>
      map_of [(''a'', NdArray ''U1'' [PyStr ''x'', PyStr ''N'']),
              (''b'', NdArray ''float'' [PyFloat 1.5, PyFloat 2.5])] (strip ''a'') = Some arr \<and>
      dtype arr = dt)"
proof -
  let ?T = "[(''a'', NdArray ''U1'' [PyStr ''x'', PyStr ''N'']),
             (''b'', NdArray ''float'' [PyFloat 1.5, PyFloat 2.5])]"
  have t: "json_to_table raising duplicate_fields duplicate_data = Inr ?T"
    by (rule duplicate_table)
  have l: "(1::nat) < length duplicate_fields" by (simp add: duplicate_fields_def)
  have c: "(duplicate_fields ! 1) ''colname'' = Some ''a''"
    and d: "(duplicate_fields ! 1) ''datatype'' = Some ''varchar(1)''"
    and c0: "(duplicate_fields ! 0) ''colname'' = Some ''a''"
    by (simp_all add: duplicate_fields_def)
  have later: "\<forall>j. 1 < j \<and> j < length duplicate_fields \<longrightarrow>
     (\<forall>col'. (duplicate_fields ! j) ''colname'' = Some col' \<longrightarrow> strip col' \<noteq> strip ''a'')"
  proof (intro allI impI)
    fix j col'
    assume j: "1 < j \<and> j < length duplicate_fields"
      and col': "(duplicate_fields ! j) ''colname'' = Some col'"
    from j have "j = 2" by (simp add: duplicate_fields_def)
    with col' have "col' = ''b''" by (simp add: duplicate_fields_def)
    then show "strip col' \<noteq> strip ''a''" by (simp add: strip_def is_space_def)
  qed
  from json_to_table_last_wins [OF t l c d later] t l c d c0 show ?thesis by blast
qed

end
